theory Spec2Isabelle
  imports Main "HOL-Library.While_Combinator" "HOL-Library.Sublist" "HOL-Library.AList"
begin

section \<open>Outcomes of Python calls\<close>

text \<open>
  The program is Python 2 (\<^verbatim>\<open>print\<close> statement, \<^verbatim>\<open>basestring\<close>, \<^verbatim>\<open>iteritems\<close>).
  A call either returns a value, raises an exception, or never returns. The exceptions
  that the modelled code can raise are listed by their Python names.
\<close>

datatype error = KeyError | AssertionError | ValueError | TypeError | AttributeError
  | AdditionError

datatype 'a result = Return 'a | Raise error | Hang

fun bind :: "'a result \<Rightarrow> ('a \<Rightarrow> 'b result) \<Rightarrow> 'b result" where
  "bind (Return x) f = f x"
| "bind (Raise e) f = Raise e"
| "bind Hang f = Hang"

section \<open>The standard library: \<^verbatim>\<open>textwrap\<close> of CPython 2.7, on byte strings\<close>

text \<open>
  \<^verbatim>\<open>relwrap\<close> calls \<^verbatim>\<open>textwrap.wrap\<close> with \<^verbatim>\<open>initial_indent\<close>, \<^verbatim>\<open>subsequent_indent\<close> and
  \<^verbatim>\<open>width\<close>; every other option of \<^verbatim>\<open>TextWrapper\<close> keeps its default
  (\<^verbatim>\<open>expand_tabs\<close>, \<^verbatim>\<open>replace_whitespace\<close>, \<^verbatim>\<open>break_long_words\<close>, \<^verbatim>\<open>drop_whitespace\<close>,
  \<^verbatim>\<open>break_on_hyphens\<close> true, \<^verbatim>\<open>fix_sentence_endings\<close> false). The functions below follow
  \<^verbatim>\<open>Lib/textwrap.py\<close> under these defaults.
\<close>

definition whitespace :: string where
  \<comment> \<open>\<^verbatim>\<open>string.whitespace\<close>: tab, newline, vertical tab, form feed, carriage return, space\<close>
  "whitespace = [CHR 0x09, CHR 0x0A, CHR 0x0B, CHR 0x0C, CHR 0x0D, CHR '' '']"

definition isspace :: "char \<Rightarrow> bool" where
  "isspace c = (c \<in> set whitespace)"

definition is_word :: "char \<Rightarrow> bool" where
  \<comment> \<open>the class \<^verbatim>\<open>\w\<close> of a byte-string pattern: letters, digits, underscore\<close>
  "is_word c = (let n = (of_char c :: nat) in
     (48 \<le> n \<and> n \<le> 57) \<or> (65 \<le> n \<and> n \<le> 90) \<or> n = 95 \<or> (97 \<le> n \<and> n \<le> 122))"

definition is_digit :: "char \<Rightarrow> bool" where
  "is_digit c = (let n = (of_char c :: nat) in 48 \<le> n \<and> n \<le> 57)"

definition is_letter :: "char \<Rightarrow> bool" where
  \<comment> \<open>the class \<^verbatim>\<open>[^0-9\W]\<close>\<close>
  "is_letter c = (is_word c \<and> \<not> is_digit c)"

definition is_punct :: "char \<Rightarrow> bool" where
  \<comment> \<open>the class \<^verbatim>\<open>[^\s\w]\<close>\<close>
  "is_punct c = (\<not> isspace c \<and> \<not> is_word c)"

definition strip_is_empty :: "string \<Rightarrow> bool" where
  \<comment> \<open>\<^verbatim>\<open>s.strip() == ''\<close>\<close>
  "strip_is_empty s = list_all isspace s"

fun expandtabs_from :: "nat \<Rightarrow> string \<Rightarrow> string" where
  "expandtabs_from col [] = []"
| "expandtabs_from col (c # cs) =
     (if c = CHR 0x09
      then (let n = 8 - col mod 8 in replicate n CHR '' '' @ expandtabs_from (col + n) cs)
      else c # expandtabs_from (if c = CHR 0x0A \<or> c = CHR 0x0D then 0 else Suc col) cs)"

definition munge_whitespace :: "string \<Rightarrow> string" where
  \<comment> \<open>\<^verbatim>\<open>text.expandtabs()\<close>, then every whitespace character becomes a space\<close>
  "munge_whitespace text =
     map (\<lambda>c. if isspace c then CHR '' '' else c) (expandtabs_from 0 text)"

text \<open>
  \<^verbatim>\<open>wordsep_re\<close> has three alternatives, tried in this order at each position:
  \<^verbatim>\<open>\s+\<close>; the hyphenated word \<^verbatim>\<open>[^\s\w]*\w+[^0-9\W]-(?=\w+[^0-9\W])\<close>; the em-dash
  \<^verbatim>\<open>(?<=[\w\!\"\'\&\.\,\?])-{2,}(?=\w)\<close>. Each function gives the length of the match at the
  head of the string, 0 for no match (no alternative matches the empty string).
\<close>

definition match_space :: "string \<Rightarrow> nat" where
  "match_space s = length (takeWhile isspace s)"

definition match_hyphenated :: "string \<Rightarrow> nat" where
  "match_hyphenated s =
     (let a = takeWhile is_punct s; r = dropWhile is_punct s;
          w = takeWhile is_word r; t = dropWhile is_word r
      in case t of
           [] \<Rightarrow> 0
         | h # u \<Rightarrow>
             (let v = takeWhile is_word u
              in if 2 \<le> length w \<and> is_letter (last w) \<and> h = CHR ''-''
                    \<and> v \<noteq> [] \<and> list_ex is_letter (tl v)
                 then length a + length w + 1 else 0))"

definition match_emdash :: "char option \<Rightarrow> string \<Rightarrow> nat" where
  "match_emdash prev s =
     (case prev of
        None \<Rightarrow> 0
      | Some p \<Rightarrow>
          (let h = takeWhile (\<lambda>c. c = CHR ''-'') s; r = dropWhile (\<lambda>c. c = CHR ''-'') s
           in if (is_word p \<or> p \<in> set [CHR ''!'', CHR 0x22, CHR 0x27, CHR ''&'', CHR ''.'',
                                          CHR '','', CHR ''?''])
                 \<and> 2 \<le> length h \<and> r \<noteq> [] \<and> is_word (hd r)
              then length h else 0))"

definition match_wordsep :: "char option \<Rightarrow> string \<Rightarrow> nat" where
  "match_wordsep prev s =
     (if match_space s \<noteq> 0 then match_space s
      else if match_hyphenated s \<noteq> 0 then match_hyphenated s
      else match_emdash prev s)"

text \<open>
  \<^verbatim>\<open>wordsep_re.split(text)\<close>: the pattern is one capturing group, so the result alternates
  the text between matches and the matches themselves. \<open>prev\<close> is the character before
  the current position (for the look-behind), \<open>acc\<close> the text since the last match,
  reversed.
\<close>

function re_split :: "char option \<Rightarrow> string \<Rightarrow> string \<Rightarrow> string list" where
  "re_split prev acc [] = [rev acc]"
| "re_split prev acc (c # cs) =
     (let n = match_wordsep prev (c # cs)
      in if n = 0 then re_split (Some c) (c # acc) cs
         else rev acc # take n (c # cs)
                # re_split (Some (last (take n (c # cs)))) [] (drop n (c # cs)))"
  by pat_completeness auto
termination
  by (relation "measure (\<lambda>(prev, acc, s). length s)") auto

definition split :: "string \<Rightarrow> string list" where
  \<comment> \<open>\<^verbatim>\<open>TextWrapper._split\<close>: empty chunks are removed\<close>
  "split text = filter (\<lambda>c. c \<noteq> []) (re_split None [] text)"

definition py_take :: "int \<Rightarrow> 'a list \<Rightarrow> 'a list" where
  \<comment> \<open>the slice \<^verbatim>\<open>s[:n]\<close>\<close>
  "py_take n s = (if 0 \<le> n then take (nat n) s else take (length s - nat (- n)) s)"

definition py_drop :: "int \<Rightarrow> 'a list \<Rightarrow> 'a list" where
  \<comment> \<open>the slice \<^verbatim>\<open>s[n:]\<close>\<close>
  "py_drop n s = (if 0 \<le> n then drop (nat n) s else drop (length s - nat (- n)) s)"

text \<open>
  \<^verbatim>\<open>_wrap_chunks\<close> reverses the chunk list and pops from its end; here the list is kept in
  text order and its head is the next chunk. The inner \<^verbatim>\<open>while\<close> loop moves chunks to the
  current line as long as they fit.
\<close>

fun take_fitting :: "int \<Rightarrow> string list \<Rightarrow> string list \<Rightarrow> int
    \<Rightarrow> string list \<times> int \<times> string list" where
  "take_fitting width [] cur_line cur_len = (cur_line, cur_len, [])"
| "take_fitting width (c # cs) cur_line cur_len =
     (if cur_len + int (length c) \<le> width
      then take_fitting width cs (cur_line @ [c]) (cur_len + int (length c))
      else (cur_line, cur_len, c # cs))"

fun handle_long_word :: "string list \<Rightarrow> string list \<Rightarrow> int \<Rightarrow> int
    \<Rightarrow> string list \<times> string list" where
  "handle_long_word [] cur_line cur_len width = (cur_line, [])"
| "handle_long_word (c # cs) cur_line cur_len width =
     (let space_left = (if width < 1 then 1 else width - cur_len)
      in (cur_line @ [py_take space_left c], py_drop space_left c # cs))"

text \<open>One pass of the outer \<^verbatim>\<open>while chunks:\<close> loop, on the state \<open>(chunks, lines)\<close>.\<close>

fun wrap_step :: "int \<Rightarrow> string \<Rightarrow> string \<Rightarrow> string list \<times> string list
    \<Rightarrow> string list \<times> string list" where
  "wrap_step w ii si ([], lines) = ([], lines)"
| "wrap_step w ii si (c # cs, lines) =
     (let indent = (if lines \<noteq> [] then si else ii);
          width = w - int (length indent);
          chunks1 = (if strip_is_empty c \<and> lines \<noteq> [] then cs else c # cs);
          (cur_line, cur_len, chunks2) = take_fitting width chunks1 [] 0;
          (cur_line2, chunks3) =
            (if chunks2 \<noteq> [] \<and> width < int (length (hd chunks2))
             then handle_long_word chunks2 cur_line cur_len width
             else (cur_line, chunks2));
          cur_line3 =
            (if cur_line2 \<noteq> [] \<and> strip_is_empty (last cur_line2)
             then butlast cur_line2 else cur_line2)
      in (chunks3, if cur_line3 \<noteq> [] then lines @ [indent @ concat cur_line3] else lines))"

definition wrap_chunks :: "int \<Rightarrow> string \<Rightarrow> string \<Rightarrow> string list \<Rightarrow> string list result" where
  "wrap_chunks w ii si chunks =
     (if w \<le> 0 then Raise ValueError
      else case while_option (\<lambda>(cs, lines). cs \<noteq> []) (wrap_step w ii si) (chunks, []) of
             None \<Rightarrow> Hang
           | Some (cs, lines) \<Rightarrow> Return lines)"

definition wrap :: "string \<Rightarrow> int \<Rightarrow> string \<Rightarrow> string \<Rightarrow> string list result" where
  \<comment> \<open>\<^verbatim>\<open>textwrap.wrap(text, width=w, initial_indent=ii, subsequent_indent=si)\<close>\<close>
  "wrap text w ii si = wrap_chunks w ii si (split (munge_whitespace text))"

text \<open>
  \<^verbatim>\<open>textwrap.dedent\<close>: lines of blanks and tabs only are emptied; the margin is the longest
  run of blanks and tabs that begins every line with other content; it is removed from
  the lines that begin with it.
\<close>

fun split_on :: "char \<Rightarrow> string \<Rightarrow> string list" where
  \<comment> \<open>\<^verbatim>\<open>s.split(sep)\<close> for a separator of one character\<close>
  "split_on sep [] = [[]]"
| "split_on sep (c # cs) =
     (case split_on sep cs of
        [] \<Rightarrow> [[c]]
      | l # ls \<Rightarrow> if c = sep then [] # l # ls else (c # l) # ls)"

fun join :: "string \<Rightarrow> string list \<Rightarrow> string" where
  \<comment> \<open>\<^verbatim>\<open>sep.join(ls)\<close>\<close>
  "join sep [] = []"
| "join sep [l] = l"
| "join sep (l # m # ls) = l @ sep @ join sep (m # ls)"

definition is_blank :: "char \<Rightarrow> bool" where
  \<comment> \<open>the class \<^verbatim>\<open>[ \t]\<close>\<close>
  "is_blank c = (c = CHR '' '' \<or> c = CHR 0x09)"

fun common_prefix :: "string \<Rightarrow> string \<Rightarrow> string" where
  "common_prefix (x # xs) (y # ys) = (if x = y then x # common_prefix xs ys else [])"
| "common_prefix xs ys = []"

fun dedent_margin :: "string option \<Rightarrow> string list \<Rightarrow> string option" where
  "dedent_margin margin [] = margin"
| "dedent_margin None (indent # indents) = dedent_margin (Some indent) indents"
| "dedent_margin (Some margin) (indent # indents) =
     (if prefix margin indent then dedent_margin (Some margin) indents
      else if prefix indent margin then dedent_margin (Some indent) indents
      else dedent_margin (Some (common_prefix margin indent)) indents)"

definition dedent :: "string \<Rightarrow> string" where
  "dedent text =
     (let ls = map (\<lambda>l. if l \<noteq> [] \<and> list_all is_blank l then [] else l)
                 (split_on (CHR 0x0A) text);
          indents = map (takeWhile is_blank) (filter (\<lambda>l. dropWhile is_blank l \<noteq> []) ls)
      in case dedent_margin None indents of
           None \<Rightarrow> join [CHR 0x0A] ls
         | Some margin \<Rightarrow>
             if margin = [] then join [CHR 0x0A] ls
             else join [CHR 0x0A]
                    (map (\<lambda>l. if prefix margin l then drop (length margin) l else l) ls))"

section \<open>The element tree (lxml), as the program reads it\<close>

text \<open>
  An element has a tag, an optional text (the attribute \<^verbatim>\<open>text\<close>, here \<open>text_of\<close>), and
  its children in document order. The path
  is what \<^verbatim>\<open>element.getroottree().getpath(element)\<close> returns: lxml computes it from the
  position of the element in its tree, so here each element carries it.
\<close>

datatype element = Element (tag: string) (text_of: "string option") (path: string)
  (getchildren: "element list")

definition find_child :: "element \<Rightarrow> string \<Rightarrow> element option" where
  \<comment> \<open>\<^verbatim>\<open>element.find(name)\<close>: the first direct child with this tag, or \<^verbatim>\<open>None\<close>\<close>
  "find_child e name = find (\<lambda>c. tag c = name) (getchildren e)"

section \<open>\<^verbatim>\<open>LXML_Dumper\<close>\<close>

text \<open>
  A ruleset maps tags to keyword arguments for \<^verbatim>\<open>format_element\<close>; the key \<^verbatim>\<open>None\<close> is
  the default entry. Dictionaries are association lists in iteration order. The values of
  the keyword arguments are used for their truth value only. The type parameter \<open>'r\<close> is
  what a ruleset holds for a tag: the keyword arguments themselves where dictionaries are
  taken as values, a reference to them where the store of dictionaries is explicit.
\<close>

type_synonym kwargs = "(string \<times> bool) list"
type_synonym ruleset = "(string option \<times> kwargs) list"

datatype 'r rules_value = Mapping "(string option \<times> 'r) list" | Basestring string
  | Other_object

record 'r dumper =
  maxdepth :: "int option"
  width :: int
  rules :: "'r rules_value"
  rulesets :: "(string \<times> (string option \<times> 'r) list) list"

definition class_rulesets :: "(string \<times> ruleset) list" where
  "class_rulesets =
     [(''book'', [(Some ''section'', [(''with_text'', False)]),
                  (Some ''para'', [(''linebreak'', True)]),
                  (None, [(''recurse'', True)])]),
      (''full'', [(None, [(''recurse'', True)])])]"

definition class_defaults :: "kwargs dumper" where
  "class_defaults =
     \<lparr>maxdepth = None, width = 80,
      rules = Mapping [(Some ''section'', [(''with_text'', False)]),
                       (Some ''para'', [(''linebreak'', True)]),
                       (None, [(''recurse'', True)])],
      rulesets = class_rulesets\<rparr>"

definition indent_of :: "int \<Rightarrow> string" where
  \<comment> \<open>\<^verbatim>\<open>'    ' * depth\<close>\<close>
  "indent_of depth = concat (replicate (nat depth) ''    '')"

definition relwrap :: "'r dumper \<Rightarrow> string \<Rightarrow> int \<Rightarrow> string result" where
  "relwrap self txt depth =
     bind (wrap txt (width self) (indent_of depth) (indent_of depth @ ''  ''))
       (\<lambda>ls. Return (join [CHR 0x0A] ls))"

definition format_element :: "'r dumper \<Rightarrow> element \<Rightarrow> int \<Rightarrow> bool \<Rightarrow> bool
    \<Rightarrow> string result" where
  "format_element self element depth linebreak with_text =
     (let title = (case find_child element ''title'' of None \<Rightarrow> Some [] | Some t \<Rightarrow> text_of t);
          title = (case title of
                     None \<Rightarrow> ''['' @ tag element @ '']''
                   | Some s \<Rightarrow> if s \<noteq> [] then s else ''['' @ tag element @ '']'');
          eltext = dedent (case text_of element of None \<Rightarrow> [] | Some s \<Rightarrow> s)
      in if linebreak
         then bind (relwrap self (title @ '' ('' @ path element @ ''):'') depth)
                (\<lambda>summary. bind (relwrap self eltext (depth + 1))
                   (\<lambda>body. Return (join [CHR 0x0A] [summary, body])))
         else relwrap self
                (if with_text then title @ '' ('' @ path element @ ''): '' @ eltext
                 else title @ '' ('' @ path element @ '')'')
                depth)"

text \<open>
  \<^verbatim>\<open>self.format_element(element, depth, **kwargs)\<close>: the function has the keyword
  parameters \<^verbatim>\<open>linebreak=False\<close> and \<^verbatim>\<open>with_text=True\<close>; any other key is a \<^verbatim>\<open>TypeError\<close>
  (unexpected keyword, or a second value for \<^verbatim>\<open>self\<close>, \<^verbatim>\<open>element\<close> or \<^verbatim>\<open>depth\<close>).
\<close>

definition call_format_element :: "'r dumper \<Rightarrow> element \<Rightarrow> int \<Rightarrow> kwargs
    \<Rightarrow> string result" where
  "call_format_element self element depth kwargs =
     (if list_all (\<lambda>(k, v). k \<in> set [''linebreak'', ''with_text'']) kwargs
      then format_element self element depth
             (case map_of kwargs ''linebreak'' of None \<Rightarrow> False | Some b \<Rightarrow> b)
             (case map_of kwargs ''with_text'' of None \<Rightarrow> True | Some b \<Rightarrow> b)
      else Raise TypeError)"

text \<open>
  The \<^verbatim>\<open>for rule in rules.iteritems(): ... else: ...\<close> loop of \<^verbatim>\<open>_dump\<close>. The third argument
  is the local variable \<^verbatim>\<open>default\<close> (here \<open>dflt\<close>), unbound (\<open>None\<close>) until an entry with key \<^verbatim>\<open>None\<close>
  has been seen. \<^verbatim>\<open>copy\<close> of a dictionary of truth values is the same value.
\<close>

fun select_rule :: "ruleset \<Rightarrow> string \<Rightarrow> kwargs option \<Rightarrow> kwargs result" where
  "select_rule [] tg dflt =
     (case dflt of None \<Rightarrow> Raise AssertionError | Some d \<Rightarrow> Return d)"
| "select_rule ((key, val) # rs) tg dflt =
     (case key of
        None \<Rightarrow> select_rule rs tg (Some val)
      | Some t \<Rightarrow> if t = tg then Return val else select_rule rs tg dflt)"

text \<open>
  \<^verbatim>\<open>_dump\<close>, the function nested in \<^verbatim>\<open>dump\<close>, and its loop over the children. The first
  component of the result is what has been printed (one entry for each \<^verbatim>\<open>print\<close>
  statement executed, without the newline that \<^verbatim>\<open>print\<close> appends), the second how the
  call ended. What was printed before an exception stays printed. \<open>rs\<close> and \<open>md\<close> are
  the variables \<^verbatim>\<open>rules\<close> and \<^verbatim>\<open>maxdepth\<close> of the enclosing \<^verbatim>\<open>dump\<close>.
\<close>

fun dump_inner :: "'r dumper \<Rightarrow> ruleset \<Rightarrow> int option \<Rightarrow> element \<Rightarrow> int
      \<Rightarrow> string list \<times> unit result"
  and dump_children :: "'r dumper \<Rightarrow> ruleset \<Rightarrow> int option \<Rightarrow> element list \<Rightarrow> int
      \<Rightarrow> string list \<times> unit result" where
  "dump_inner self rs md (Element tg tx pth chs) depth =
     (case select_rule rs tg None of
        Raise e \<Rightarrow> ([], Raise e)
      | Hang \<Rightarrow> ([], Hang)
      | Return kwargs0 \<Rightarrow>
          (let recurse = (case map_of kwargs0 ''recurse'' of None \<Rightarrow> False | Some b \<Rightarrow> b);
               kwargs = AList.delete ''recurse'' kwargs0
           in case call_format_element self (Element tg tx pth chs) depth kwargs of
                Raise e \<Rightarrow> ([], Raise e)
              | Hang \<Rightarrow> ([], Hang)
              | Return line \<Rightarrow>
                  if recurse \<and> (case md of None \<Rightarrow> True | Some m \<Rightarrow> depth < m)
                  then (case dump_children self rs md chs (depth + 1) of
                          (out, r) \<Rightarrow> (line # out, r))
                  else ([line], Return ())))"
| "dump_children self rs md [] depth = ([], Return ())"
| "dump_children self rs md (c # cs) depth =
     (case dump_inner self rs md c depth of
        (out, Return u) \<Rightarrow>
          (case dump_children self rs md cs depth of (out', r) \<Rightarrow> (out @ out', r))
      | (out, Raise e) \<Rightarrow> (out, Raise e)
      | (out, Hang) \<Rightarrow> (out, Hang))"

text \<open>The keyword arguments that \<^verbatim>\<open>dump\<close> pops; an absent one is \<open>None\<close>.\<close>

record 'r dump_kwargs =
  kw_depth :: "int option"
  kw_maxdepth :: "int option option"
  kw_rules :: "'r rules_value option"

definition resolve_rules :: "'r dumper \<Rightarrow> 'r rules_value
    \<Rightarrow> (string option \<times> 'r) list result" where
  \<comment> \<open>the \<^verbatim>\<open>isinstance\<close> tests of \<^verbatim>\<open>dump\<close> and the final \<^verbatim>\<open>assert\<close>\<close>
  "resolve_rules self r =
     (case r of
        Mapping m \<Rightarrow> Return m
      | Basestring s \<Rightarrow>
          (case map_of (rulesets self) s of None \<Rightarrow> Raise KeyError | Some m \<Rightarrow> Return m)
      | Other_object \<Rightarrow> Raise AssertionError)"

definition dump :: "kwargs dumper \<Rightarrow> element \<Rightarrow> kwargs dump_kwargs
    \<Rightarrow> string list \<times> unit result" where
  "dump self element kwargs =
     (let depth = (case kw_depth kwargs of None \<Rightarrow> 0 | Some d \<Rightarrow> d);
          md = (case kw_maxdepth kwargs of None \<Rightarrow> maxdepth self | Some m \<Rightarrow> m);
          r = (case kw_rules kwargs of None \<Rightarrow> rules self | Some r \<Rightarrow> r)
      in case resolve_rules self r of
           Raise e \<Rightarrow> ([], Raise e)
         | Hang \<Rightarrow> ([], Hang)
         | Return rs \<Rightarrow> dump_inner self rs md element depth)"

definition stdout :: "string list \<Rightarrow> string" where
  \<comment> \<open>the characters written by the \<^verbatim>\<open>print\<close> statements\<close>
  "stdout printed = concat (map (\<lambda>s. s @ [CHR 0x0A]) printed)"

subsection \<open>The tag graph\<close>

text \<open>
  \<^verbatim>\<open>root.iterdescendants()\<close> yields the elements below \<open>root\<close> in document order, \<open>root\<close>
  itself excluded; with a tag it yields those of that tag.
\<close>

fun iterdescendants :: "element \<Rightarrow> element list"
  and descendants_of_list :: "element list \<Rightarrow> element list" where
  "iterdescendants (Element tg tx pth chs) = descendants_of_list chs"
| "descendants_of_list [] = []"
| "descendants_of_list (c # cs) = c # iterdescendants c @ descendants_of_list cs"

definition iterdescendants_tag :: "element \<Rightarrow> string \<Rightarrow> element list" where
  "iterdescendants_tag root tg = filter (\<lambda>n. tag n = tg) (iterdescendants root)"

text \<open>The generator loop shared by the two iterators: yield what is not yet in the set.\<close>

fun unique_from :: "'a set \<Rightarrow> 'a list \<Rightarrow> 'a list" where
  "unique_from found [] = []"
| "unique_from found (t # ts) =
     (if t \<notin> found then t # unique_from (insert t found) ts else unique_from found ts)"

definition iter_unique_child_tags :: "element \<Rightarrow> string \<Rightarrow> string list" where
  "iter_unique_child_tags root tg =
     unique_from {} (map tag (concat (map getchildren (iterdescendants_tag root tg))))"

definition iter_tag_list :: "element \<Rightarrow> string list" where
  \<comment> \<open>every element has the attribute \<^verbatim>\<open>tag\<close>\<close>
  "iter_tag_list root = unique_from {} (map tag (iterdescendants root))"

text \<open>
  \<^verbatim>\<open>pygraph.classes.digraph\<close>: \<^verbatim>\<open>add_node\<close> refuses a node that is already there,
  \<^verbatim>\<open>add_edge\<close> an edge that is already there or that has an end missing from the graph.
\<close>

record digraph =
  nodes :: "string list"
  edges :: "(string \<times> string) list"

definition add_node :: "digraph \<Rightarrow> string \<Rightarrow> digraph result" where
  "add_node g n =
     (if n \<in> set (nodes g) then Raise AdditionError else Return (g\<lparr>nodes := nodes g @ [n]\<rparr>))"

fun add_nodes :: "digraph \<Rightarrow> string list \<Rightarrow> digraph result" where
  "add_nodes g [] = Return g"
| "add_nodes g (n # ns) = bind (add_node g n) (\<lambda>g'. add_nodes g' ns)"

definition add_edge :: "digraph \<Rightarrow> string \<times> string \<Rightarrow> digraph result" where
  "add_edge g e =
     (if fst e \<notin> set (nodes g) \<or> snd e \<notin> set (nodes g) then Raise AdditionError
      else if e \<in> set (edges g) then Raise AdditionError
      else Return (g\<lparr>edges := edges g @ [e]\<rparr>))"

fun add_child_edges :: "digraph \<Rightarrow> string \<Rightarrow> string list \<Rightarrow> digraph result" where
  "add_child_edges g parent [] = Return g"
| "add_child_edges g parent (child # cs) =
     bind (add_edge g (parent, child)) (\<lambda>g'. add_child_edges g' parent cs)"

fun add_parent_edges :: "element \<Rightarrow> digraph \<Rightarrow> string list \<Rightarrow> digraph result" where
  "add_parent_edges root g [] = Return g"
| "add_parent_edges root g (parent # ps) =
     bind (add_child_edges g parent (iter_unique_child_tags root parent))
       (\<lambda>g'. add_parent_edges root g' ps)"

definition build_tag_graph :: "element \<Rightarrow> digraph result" where
  "build_tag_graph root =
     (let tags = iter_tag_list root
      in bind (add_nodes \<lparr>nodes = [], edges = []\<rparr> tags) (\<lambda>g. add_parent_edges root g tags))"

subsection \<open>The initializer and attribute lookup\<close>

text \<open>
  \<^verbatim>\<open>__init__\<close> stores its keyword arguments in the instance dictionary. Reading an
  attribute looks in the instance dictionary first and in the class after it. The class
  body binds \<^verbatim>\<open>rulesets\<close>, \<^verbatim>\<open>maxdepth\<close>, \<^verbatim>\<open>width\<close>, \<^verbatim>\<open>rules\<close> and the methods.
\<close>

datatype pyval = PyNone | PyInt int | PyStr string | PyMapping ruleset
  | PyRulesets "(string \<times> ruleset) list" | PyFunction string

type_synonym attrs = "(string \<times> pyval) list"

definition class_dict :: attrs where
  "class_dict =
     [(''rulesets'', PyRulesets class_rulesets),
      (''maxdepth'', PyNone),
      (''width'', PyInt 80),
      (''rules'', PyMapping [(Some ''section'', [(''with_text'', False)]),
                             (Some ''para'', [(''linebreak'', True)]),
                             (None, [(''recurse'', True)])]),
      (''__init__'', PyFunction ''__init__''),
      (''relwrap'', PyFunction ''relwrap''),
      (''format_element'', PyFunction ''format_element''),
      (''dump'', PyFunction ''dump''),
      (''iter_unique_child_tags'', PyFunction ''iter_unique_child_tags''),
      (''iter_tag_list'', PyFunction ''iter_tag_list''),
      (''build_tag_graph'', PyFunction ''build_tag_graph''),
      (''write_graph'', PyFunction ''write_graph''),
      (''write_tag_graph'', PyFunction ''write_tag_graph'')]"

definition dict_update :: "attrs \<Rightarrow> attrs \<Rightarrow> attrs" where
  \<comment> \<open>\<^verbatim>\<open>d.update(kwargs)\<close>\<close>
  "dict_update d kwargs = fold (\<lambda>(k, v). AList.update k v) kwargs d"

definition init :: "attrs \<Rightarrow> attrs" where
  \<comment> \<open>the instance dictionary after \<^verbatim>\<open>LXML_Dumper(**kwargs)\<close>; it is empty before \<^verbatim>\<open>__init__\<close>\<close>
  "init kwargs = dict_update [] kwargs"

definition getattr :: "attrs \<Rightarrow> string \<Rightarrow> pyval result" where
  "getattr self name =
     (case map_of self name of
        Some v \<Rightarrow> Return v
      | None \<Rightarrow> (case map_of class_dict name of
                   Some v \<Rightarrow> Return v
                 | None \<Rightarrow> Raise AttributeError))"

text \<open>
  The methods are modelled for instances whose four configuration attributes have the
  types that the class docstring gives them; \<open>dumper_of\<close> reads them.
\<close>

definition dumper_of :: "attrs \<Rightarrow> kwargs dumper option" where
  "dumper_of self =
     (case (getattr self ''maxdepth'', getattr self ''width'', getattr self ''rules'',
            getattr self ''rulesets'') of
        (Return m, Return (PyInt w), Return r, Return (PyRulesets rs)) \<Rightarrow>
          (case (case m of PyNone \<Rightarrow> Some None | PyInt n \<Rightarrow> Some (Some n) | _ \<Rightarrow> None,
                 case r of PyMapping rm \<Rightarrow> Some (Mapping rm) | PyStr s \<Rightarrow> Some (Basestring s)
                   | PyRulesets x \<Rightarrow> None | _ \<Rightarrow> Some Other_object) of
             (Some md, Some rv) \<Rightarrow> Some \<lparr>maxdepth = md, width = w, rules = rv, rulesets = rs\<rparr>
           | _ \<Rightarrow> None)
      | _ \<Rightarrow> None)"

section \<open>The walk as the specification words it\<close>

text \<open>
  The specification describes the output of \<^verbatim>\<open>dump\<close> as one rendering for each visited
  node, in pre-order: a node, then the subtrees of its children from left to right, the
  children being visited when the node's rule has a true \<^verbatim>\<open>recurse\<close> and the depth limit
  allows it. \<open>preorder_visits\<close> is that list of nodes with their depths, \<open>render\<close> what
  visiting a node prints, and \<open>print_all\<close> prints renderings one after the other until
  one fails. They are compared with \<open>dump_inner\<close> below.
\<close>

definition recurses :: "ruleset \<Rightarrow> string \<Rightarrow> bool" where
  "recurses rs tg =
     (case select_rule rs tg None of
        Return kw \<Rightarrow> (case map_of kw ''recurse'' of None \<Rightarrow> False | Some b \<Rightarrow> b)
      | _ \<Rightarrow> False)"

definition within :: "int option \<Rightarrow> int \<Rightarrow> bool" where
  "within md depth = (case md of None \<Rightarrow> True | Some m \<Rightarrow> depth < m)"

fun preorder_visits :: "ruleset \<Rightarrow> int option \<Rightarrow> element \<Rightarrow> int \<Rightarrow> (element \<times> int) list"
  and preorder_visits_list :: "ruleset \<Rightarrow> int option \<Rightarrow> element list \<Rightarrow> int \<Rightarrow> (element \<times> int) list" where
  "preorder_visits rs md (Element tg tx pth chs) depth =
     (Element tg tx pth chs, depth)
       # (if recurses rs tg \<and> within md depth then preorder_visits_list rs md chs (depth + 1) else [])"
| "preorder_visits_list rs md [] depth = []"
| "preorder_visits_list rs md (c # cs) depth =
     preorder_visits rs md c depth @ preorder_visits_list rs md cs depth"

definition render :: "'r dumper \<Rightarrow> ruleset \<Rightarrow> element \<times> int \<Rightarrow> string result" where
  "render self rs v =
     bind (select_rule rs (tag (fst v)) None)
       (\<lambda>kw. call_format_element self (fst v) (snd v) (AList.delete ''recurse'' kw))"

fun print_all :: "string result list \<Rightarrow> string list \<times> unit result" where
  "print_all [] = ([], Return ())"
| "print_all (Return s # rest) = (case print_all rest of (out, r) \<Rightarrow> (s # out, r))"
| "print_all (Raise e # rest) = ([], Raise e)"
| "print_all (Hang # rest) = ([], Hang)"


subsection \<open>Measures for the wrapping loop\<close>

text \<open>
  \<open>size_chunks\<close> is what the loop of \<^verbatim>\<open>_wrap_chunks\<close> consumes: the characters still to place
  and the chunks still on the stack. \<open>well_indented\<close> says that the first line begins with the
  initial indent and every later line with the subsequent indent.
\<close>

definition size_chunks :: "string list \<Rightarrow> nat" where
  "size_chunks cs = length (concat cs) + length cs"

definition well_indented :: "string \<Rightarrow> string \<Rightarrow> string list \<Rightarrow> bool" where
  "well_indented ii si ls = ((ls \<noteq> [] \<longrightarrow> prefix ii (hd ls)) \<and> (\<forall>l \<in> set (tl ls). prefix si l))"

subsection \<open>Sample data\<close>

definition sample_tree :: element where
  "sample_tree =
     Element ''book'' None ''/book''
       [Element ''title'' (Some ''Guide'') ''/book/title'' [],
        Element ''chapter'' None ''/book/chapter''
          [Element ''title'' (Some ''Intro'') ''/book/chapter/title'' [],
           Element ''para'' (Some ''Hello world'') ''/book/chapter/para'' []]]"

definition no_kwargs :: "'r dump_kwargs" where
  "no_kwargs = \<lparr>kw_depth = None, kw_maxdepth = None, kw_rules = None\<rparr>"

section \<open>Properties\<close>

subsection \<open>Rule selection\<close>

lemma select_rule_no_match:
  "Some tg \<notin> fst ` set rs \<Longrightarrow> None \<notin> fst ` set rs \<Longrightarrow>
   select_rule rs tg dflt = (case dflt of None \<Rightarrow> Raise AssertionError | Some d \<Rightarrow> Return d)"
proof (induction rs arbitrary: dflt)
  case Nil
  then show ?case by simp
next
  case (Cons p rs)
  obtain key val where p: "p = (key, val)" by (cases p)
  from Cons.prems p obtain t where key: "key = Some t" and t: "t \<noteq> tg"
    by (cases key) auto
  from Cons.prems have "Some tg \<notin> fst ` set rs" "None \<notin> fst ` set rs" by auto
  then have "select_rule rs tg dflt
             = (case dflt of None \<Rightarrow> Raise AssertionError | Some d \<Rightarrow> Return d)"
    by (rule Cons.IH)
  then show ?case by (simp add: p key t)
qed

lemma select_rule_lookup:
  assumes "distinct (map fst rs)"
  shows "select_rule rs tg None =
     (case map_of rs (Some tg) of
        Some kw \<Rightarrow> Return kw
      | None \<Rightarrow> (case map_of rs None of Some kw \<Rightarrow> Return kw | None \<Rightarrow> Raise AssertionError))"
proof -
  have "select_rule rs tg dflt =
     (case map_of rs (Some tg) of
        Some kw \<Rightarrow> Return kw
      | None \<Rightarrow> (case map_of rs None of Some kw \<Rightarrow> Return kw
                  | None \<Rightarrow> (case dflt of None \<Rightarrow> Raise AssertionError | Some d \<Rightarrow> Return d)))"
    if "distinct (map fst rs)" for dflt
    using that
  proof (induction rs arbitrary: dflt)
    case Nil
    then show ?case by simp
  next
    case (Cons p rs)
    obtain key val where p: "p = (key, val)" by (cases p)
    from Cons.prems have dist: "distinct (map fst rs)" and key: "key \<notin> fst ` set rs"
      by (auto simp: p)
    show ?case
    proof (cases key)
      case None
      with key have "map_of rs None = None" by (simp add: map_of_eq_None_iff)
      with Cons.IH [OF dist, of "Some val"] show ?thesis
        by (simp add: p None split: option.splits)
    next
      case (Some t)
      show ?thesis
      proof (cases "t = tg")
        case True
        then show ?thesis by (simp add: p Some)
      next
        case False
        with Cons.IH [OF dist, of dflt] show ?thesis
          by (simp add: p Some split: option.splits)
      qed
    qed
  qed
  from this [OF assms, of None] show ?thesis by (simp split: option.splits)
qed

subsection \<open>The walk\<close>

lemma print_all_Returns:
  "map Return out = rs \<Longrightarrow> print_all rs = (out, Return ())"
  by (induction out arbitrary: rs) auto

lemma subseq_preorder_visits:
  "subseq (map fst (preorder_visits rs md el depth)) (el # iterdescendants el)"
  "subseq (map fst (preorder_visits_list rs md cs depth)) (descendants_of_list cs)"
proof (induction rs md el depth and rs md cs depth rule: preorder_visits_preorder_visits_list.induct)
  case (1 rs md tg tx pth chs depth)
  then show ?case by simp
next
  case (2 rs md depth)
  then show ?case by simp
next
  case (3 rs md c cs depth)
  have "subseq (map fst (preorder_visits rs md c depth) @ map fst (preorder_visits_list rs md cs depth))
          ((c # iterdescendants c) @ descendants_of_list cs)"
    using "3.IH" by (rule list_emb_append_mono)
  then show ?case by simp
qed

lemma preorder_visits_list_append:
  "preorder_visits_list rs md (xs @ ys) depth
     = preorder_visits_list rs md xs depth @ preorder_visits_list rs md ys depth"
  by (induction xs) simp_all

lemma print_all_append:
  "print_all (xs @ ys) =
     (case print_all xs of
        (out, Return u) \<Rightarrow> (case print_all ys of (out', r) \<Rightarrow> (out @ out', r))
      | (out, Raise e) \<Rightarrow> (out, Raise e)
      | (out, Hang) \<Rightarrow> (out, Hang))"
proof (induction xs)
  case Nil
  then show ?case by (simp split: prod.splits)
next
  case (Cons x xs)
  then show ?case
    by (cases x) (auto split: prod.splits result.splits)
qed

lemma dump_print_all:
  "dump_inner self rs md el depth = print_all (map (render self rs) (preorder_visits rs md el depth))"
  "dump_children self rs md cs depth = print_all (map (render self rs) (preorder_visits_list rs md cs depth))"
proof (induction self rs md el depth and self rs md cs depth rule: dump_inner_dump_children.induct)
  case (1 self rs md tg tx pth chs depth)
  show ?case
  proof (cases "select_rule rs tg None")
    case (Return kw)
    note sel = this
    show ?thesis
    proof (cases "call_format_element self (Element tg tx pth chs) depth (AList.delete ''recurse'' kw)")
      case (Return line)
      have rec: "recurses rs tg = (case map_of kw ''recurse'' of None \<Rightarrow> False | Some b \<Rightarrow> b)"
        using sel by (simp add: recurses_def)
      show ?thesis
      proof (cases "(case map_of kw ''recurse'' of None \<Rightarrow> False | Some b \<Rightarrow> b)
                    \<and> (case md of None \<Rightarrow> True | Some m \<Rightarrow> depth < m)")
        case True
        from "1.IH" [OF sel refl refl Return True]
        show ?thesis using sel Return True
          by (simp add: render_def rec within_def split: prod.splits)
      next
        case False
        then show ?thesis using sel Return
          by (auto simp: render_def rec within_def)
      qed
    qed (simp_all add: sel render_def)
  qed (simp_all add: render_def)
next
  case (2 self rs md depth)
  show ?case by simp
next
  case (3 self rs md c cs depth)
  show ?case
  proof (cases "dump_inner self rs md c depth")
    case (Pair out r)
    have pa: "print_all (map (render self rs) (preorder_visits rs md c depth)) = (out, r)"
      using "3.IH"(1) Pair by simp
    show ?thesis
    proof (cases r)
      case (Return u)
      have "dump_children self rs md cs depth
            = print_all (map (render self rs) (preorder_visits_list rs md cs depth))"
        by (rule "3.IH"(2) [OF Pair [symmetric] Return])
      then show ?thesis
        by (simp add: print_all_append Pair pa Return split: prod.splits)
    next
      case (Raise e)
      then show ?thesis by (simp add: print_all_append Pair pa)
    next
      case Hang
      then show ?thesis by (simp add: print_all_append Pair pa)
    qed
  qed
qed

lemma map_of_dict_update:
  "distinct (map fst kwargs) \<Longrightarrow> map_of (dict_update d kwargs) = map_of d ++ map_of kwargs"
proof (induction kwargs arbitrary: d)
  case Nil
  then show ?case by (simp add: dict_update_def)
next
  case (Cons p kwargs)
  obtain k v where p: "p = (k, v)" by (cases p)
  from Cons.prems p have k: "k \<notin> fst ` set kwargs" and d: "distinct (map fst kwargs)"
    by auto
  have "map_of (dict_update d (p # kwargs)) = map_of (dict_update (AList.update k v d) kwargs)"
    by (simp add: dict_update_def p)
  also have "\<dots> = map_of (AList.update k v d) ++ map_of kwargs"
    by (rule Cons.IH [OF d])
  also have "\<dots> = (map_of d)(k \<mapsto> v) ++ map_of kwargs"
    by (simp add: update_conv')
  also have "\<dots> = map_of d ++ map_of (p # kwargs)"
  proof -
    from k have "map_of kwargs k = None" by (simp add: map_of_eq_None_iff)
    then show ?thesis
      by (auto simp: p map_add_def fun_eq_iff split: option.splits)
  qed
  finally show ?case .
qed

subsection \<open>The initializer\<close>

text \<open>
  Claim C10. The initializer takes any bag of keyword arguments (their keys are distinct,
  as in every Python call) and stores each pair in the instance dictionary without
  looking at the key: the instance dictionary is the bag. Reading a stored key gives the
  stored value, whether the class knows the key or not, so a key that the class body also
  binds (\<^verbatim>\<open>maxdepth\<close>, \<^verbatim>\<open>width\<close>, \<^verbatim>\<open>rules\<close>, a method name) hides the class's value; a key
  that was not given reads as in an instance created without arguments.
\<close>

theorem init_stores_every_keyword:
  assumes "distinct (map fst kwargs)"
  shows "map_of (init kwargs) = map_of kwargs
       \<and> (\<forall>k v. map_of kwargs k = Some v \<longrightarrow> getattr (init kwargs) k = Return v)
       \<and> (\<forall>k. map_of kwargs k = None \<longrightarrow> getattr (init kwargs) k = getattr (init []) k)"
proof -
  have stored: "map_of (init kwargs) = map_of kwargs"
    using assms by (simp add: init_def map_of_dict_update)
  have empty: "map_of (init []) = Map.empty"
    by (simp add: init_def dict_update_def)
  show ?thesis by (simp add: getattr_def stored empty)
qed

theorem init_stores_every_keyword_witness:
  "distinct (map fst [(''maxdepth'', PyInt 2), (''dump'', PyInt 3), (''colour'', PyStr ''red'')])
   \<and> getattr (init [(''maxdepth'', PyInt 2), (''dump'', PyInt 3), (''colour'', PyStr ''red'')])
         ''maxdepth'' = Return (PyInt 2)
   \<and> getattr (init [(''maxdepth'', PyInt 2), (''dump'', PyInt 3), (''colour'', PyStr ''red'')])
         ''dump'' = Return (PyInt 3)
   \<and> getattr (init [(''maxdepth'', PyInt 2), (''dump'', PyInt 3), (''colour'', PyStr ''red'')])
         ''colour'' = Return (PyStr ''red'')
   \<and> getattr (init [(''maxdepth'', PyInt 2), (''dump'', PyInt 3), (''colour'', PyStr ''red'')])
         ''width'' = Return (PyInt 80)
   \<and> getattr (init []) ''dump'' = Return (PyFunction ''dump'')
   \<and> getattr (init []) ''colour'' = Raise AttributeError"
proof -
  have d: "distinct (map fst [(''maxdepth'', PyInt 2), (''dump'', PyInt 3),
                              (''colour'', PyStr ''red'')])"
    by simp
  have c: "getattr (init []) ''width'' = Return (PyInt 80)
         \<and> getattr (init []) ''dump'' = Return (PyFunction ''dump'')
         \<and> getattr (init []) ''colour'' = Raise AttributeError"
    by (simp add: getattr_def init_def dict_update_def class_dict_def)
  from init_stores_every_keyword [OF d] d c show ?thesis by simp
qed

subsection \<open>Failures of \<^verbatim>\<open>dump\<close>\<close>

text \<open>
  Claim C1. Let \<open>r\<close> be the rules value that \<^verbatim>\<open>dump\<close> works with (the keyword argument
  \<^verbatim>\<open>rules\<close> if given, the attribute otherwise). If \<open>r\<close> is a string that is not a key of
  \<^verbatim>\<open>rulesets\<close>, \<^verbatim>\<open>dump\<close> prints nothing and fails (the code's \<^verbatim>\<open>KeyError\<close>); if \<open>r\<close> is
  neither a mapping nor a string, it prints nothing and fails (the code's
  \<^verbatim>\<open>AssertionError\<close>). These two exceptions are what the specification calls a
  configuration error. The keys of the class's \<^verbatim>\<open>rulesets\<close> are \<^verbatim>\<open>book\<close> and \<^verbatim>\<open>full\<close>.
\<close>

theorem dump_rejects_unknown_rules:
  assumes "r = (case kw_rules kwargs of None \<Rightarrow> rules self | Some x \<Rightarrow> x)"
  shows "(r = Basestring s \<and> s \<notin> fst ` set (rulesets self)
            \<longrightarrow> dump self element kwargs = ([], Raise KeyError))
       \<and> (r = Other_object \<longrightarrow> dump self element kwargs = ([], Raise AssertionError))
       \<and> (s \<notin> fst ` set class_rulesets) = (s \<noteq> ''book'' \<and> s \<noteq> ''full'')"
proof -
  have "dump self element kwargs = ([], Raise KeyError)"
    if "r = Basestring s" "s \<notin> fst ` set (rulesets self)"
  proof -
    from that(2) have "map_of (rulesets self) s = None" by (simp add: map_of_eq_None_iff)
    with that(1) assms show ?thesis by (simp add: dump_def resolve_rules_def)
  qed
  moreover have "dump self element kwargs = ([], Raise AssertionError)" if "r = Other_object"
    using that assms by (simp add: dump_def resolve_rules_def)
  moreover have "(s \<notin> fst ` set class_rulesets) = (s \<noteq> ''book'' \<and> s \<noteq> ''full'')"
    by (auto simp: class_rulesets_def)
  ultimately show ?thesis by blast
qed

theorem dump_rejects_unknown_rules_witness:
  "''nonexistent'' \<notin> fst ` set (rulesets class_defaults)
   \<and> dump class_defaults sample_tree (no_kwargs\<lparr>kw_rules := Some (Basestring ''nonexistent'')\<rparr>)
       = ([], Raise KeyError)
   \<and> dump (class_defaults\<lparr>rules := Other_object\<rparr>) sample_tree no_kwargs
       = ([], Raise AssertionError)"
proof -
  have k: "''nonexistent'' \<notin> fst ` set (rulesets class_defaults)"
    by (simp add: class_defaults_def class_rulesets_def)
  have r1: "Basestring ''nonexistent''
            = (case kw_rules (no_kwargs\<lparr>kw_rules := Some (Basestring ''nonexistent'')\<rparr>) of
                 None \<Rightarrow> rules class_defaults | Some x \<Rightarrow> x)"
    by simp
  have r2: "Other_object
            = (case kw_rules no_kwargs of
                 None \<Rightarrow> rules (class_defaults\<lparr>rules := Other_object\<rparr>) | Some x \<Rightarrow> x)"
    by (simp add: no_kwargs_def)
  from dump_rejects_unknown_rules [OF r1, of "''nonexistent''" sample_tree]
       dump_rejects_unknown_rules [OF r2, of "''nonexistent''" sample_tree] k
  show ?thesis by simp
qed

text \<open>
  Claim C2. Take a node \<open>n\<close> that the walk reaches: it is in the pre-order list of the
  nodes to visit, and every node before it has been rendered (their lines are \<open>out\<close>). If
  the ruleset has neither an entry for the tag of \<open>n\<close> nor an entry with the key \<^verbatim>\<open>None\<close>,
  the walk stops there with the failed assertion, after the lines \<open>out\<close>: no line is
  printed for \<open>n\<close> and no rule is made up for it.
\<close>

theorem dump_fails_without_rule:
  assumes visits: "preorder_visits rs md root depth = pre @ (n, d) # post"
      and reached: "map Return out = map (render self rs) pre"
      and no_explicit: "Some (tag n) \<notin> fst ` set rs"
      and no_wildcard: "None \<notin> fst ` set rs"
  shows "dump_inner self rs md root depth = (out, Raise AssertionError)"
proof -
  have "select_rule rs (tag n) None = Raise AssertionError"
    using select_rule_no_match [OF no_explicit no_wildcard, of None] by simp
  then have "render self rs (n, d) = Raise AssertionError"
    by (simp add: render_def)
  moreover have "print_all (map (render self rs) pre) = (out, Return ())"
    using reached by (rule print_all_Returns)
  ultimately show ?thesis
    by (simp add: dump_print_all visits print_all_append)
qed

theorem dump_fails_without_rule_witness:
  "dump_inner class_defaults [(Some ''book'', [(''recurse'', True)]), (Some ''title'', [])] None
     sample_tree 0
   = ([''Guide (/book):'', ''    [title] (/book/title): Guide''], Raise AssertionError)"
proof -
  let ?rs = "[(Some ''book'', [(''recurse'', True)]), (Some ''title'', [])]"
  let ?title = "Element ''title'' (Some ''Guide'') ''/book/title'' []"
  let ?chapter = "Element ''chapter'' None ''/book/chapter''
          [Element ''title'' (Some ''Intro'') ''/book/chapter/title'' [],
           Element ''para'' (Some ''Hello world'') ''/book/chapter/para'' []]"
  have v: "preorder_visits ?rs None sample_tree 0
           = [(sample_tree, 0), (?title, 1)] @ (?chapter, 1) # []"
    by (simp add: sample_tree_def recurses_def within_def)
  have r: "map Return [''Guide (/book):'', ''    [title] (/book/title): Guide'']
           = map (render class_defaults ?rs) [(sample_tree, 0), (?title, 1)]"
    by code_simp
  have e: "Some (tag ?chapter) \<notin> fst ` set ?rs" by simp
  have w: "None \<notin> fst ` set ?rs" by simp
  show ?thesis by (rule dump_fails_without_rule [OF v r e w])
qed

subsection \<open>Descending into the children\<close>

text \<open>
  Claim C3. Take a node whose rule is \<open>kw\<close> and whose line \<open>line\<close> has been rendered, and
  let \<open>recurse\<close> be the truth value of \<^verbatim>\<open>recurse\<close> in \<open>kw\<close> (false when absent). The walk
  prints the line; it then goes through the children exactly when \<open>recurse\<close> holds and
  \<^verbatim>\<open>maxdepth\<close> is \<^verbatim>\<open>None\<close> or greater than the depth. The children are walked from left to
  right, each by \<open>dump_inner\<close> with the same ruleset and the same \<^verbatim>\<open>maxdepth\<close>, at the depth
  plus one, until one fails. So without \<open>recurse\<close> the node's line is all that is printed,
  whatever \<^verbatim>\<open>maxdepth\<close> is, and so it is with \<^verbatim>\<open>maxdepth\<close> 0 at depth 0.
\<close>

theorem dump_inner_recursion:
  assumes sel: "select_rule rs (tag element) None = Return kw"
      and fmt: "call_format_element self element depth (AList.delete ''recurse'' kw)
                = Return line"
      and rec: "recurse = (case map_of kw ''recurse'' of None \<Rightarrow> False | Some b \<Rightarrow> b)"
  shows "dump_inner self rs md element depth =
           (if recurse \<and> (md = None \<or> depth < the md)
            then (line # fst (dump_children self rs md (getchildren element) (depth + 1)),
                  snd (dump_children self rs md (getchildren element) (depth + 1)))
            else ([line], Return ()))
       \<and> (\<forall>cs d. dump_children self rs md cs d =
             foldr (\<lambda>c rest. case dump_inner self rs md c d of
                                (out, Return u) \<Rightarrow> (out @ fst rest, snd rest)
                              | (out, Raise e) \<Rightarrow> (out, Raise e)
                              | (out, Hang) \<Rightarrow> (out, Hang)) cs ([], Return ()))
       \<and> (\<not> recurse \<longrightarrow> dump_inner self rs md element depth = ([line], Return ()))
       \<and> (md = Some 0 \<and> depth = 0
            \<longrightarrow> dump_inner self rs md element depth = ([line], Return ()))"
proof -
  obtain tg tx pth chs where el: "element = Element tg tx pth chs" by (cases element)
  have unfold: "dump_inner self rs md element depth =
           (if recurse \<and> (md = None \<or> depth < the md)
            then (line # fst (dump_children self rs md (getchildren element) (depth + 1)),
                  snd (dump_children self rs md (getchildren element) (depth + 1)))
            else ([line], Return ()))"
    using sel fmt by (cases md) (auto simp: el rec split: prod.splits)
  have children: "dump_children self rs md cs d =
             foldr (\<lambda>c rest. case dump_inner self rs md c d of
                                (out, Return u) \<Rightarrow> (out @ fst rest, snd rest)
                              | (out, Raise e) \<Rightarrow> (out, Raise e)
                              | (out, Hang) \<Rightarrow> (out, Hang)) cs ([], Return ())" for cs d
    by (induction cs) (simp_all split: prod.splits result.splits)
  have norec: "dump_inner self rs md element depth = ([line], Return ())" if "\<not> recurse"
    using that unfold by simp
  have zero: "dump_inner self rs md element depth = ([line], Return ())"
    if "md = Some 0 \<and> depth = 0"
    using that unfold by simp
  from unfold children norec zero show ?thesis by blast
qed

theorem dump_inner_recursion_witness:
  "dump_inner class_defaults [(None, [(''recurse'', True)])] (Some 0) sample_tree 0
     = ([''Guide (/book):''], Return ())
   \<and> dump_inner class_defaults [(None, [(''with_text'', False)])] None sample_tree 0
     = ([''Guide (/book)''], Return ())"
proof -
  have s1: "select_rule [(None, [(''recurse'', True)])] (tag sample_tree) None
            = Return [(''recurse'', True)]"
    by simp
  have f1: "call_format_element class_defaults sample_tree 0
              (AList.delete ''recurse'' [(''recurse'', True)]) = Return ''Guide (/book):''"
    by code_simp
  have r1: "True = (case map_of [(''recurse'', True)] ''recurse'' of
                      None \<Rightarrow> False | Some b \<Rightarrow> b)"
    by simp
  have s2: "select_rule [(None, [(''with_text'', False)])] (tag sample_tree) None
            = Return [(''with_text'', False)]"
    by simp
  have f2: "call_format_element class_defaults sample_tree 0
              (AList.delete ''recurse'' [(''with_text'', False)]) = Return ''Guide (/book)''"
    by code_simp
  have r2: "False = (case map_of [(''with_text'', False)] ''recurse'' of
                       None \<Rightarrow> False | Some b \<Rightarrow> b)"
    by simp
  from dump_inner_recursion [OF s1 f1 r1, of "Some 0"]
       dump_inner_recursion [OF s2 f2 r2, of None]
  show ?thesis by simp
qed

subsection \<open>The order of the output\<close>

text \<open>
  Claim C7. Once the rules are resolved, \<^verbatim>\<open>dump\<close> prints the renderings of the nodes of
  \<open>preorder_visits\<close> in the order of that list, up to the first rendering that fails.
  That list is in pre-order: it begins with the node itself, which thus comes before all
  of its descendants; the nodes of an earlier sibling's subtree come before those of a
  later sibling's; and it is a subsequence of the document order of lxml (the element,
  then \<^verbatim>\<open>iterdescendants\<close>).
\<close>

theorem dump_is_preorder:
  assumes "resolve_rules self (case kw_rules kwargs of None \<Rightarrow> rules self | Some r \<Rightarrow> r)
           = Return rs"
      and "md = (case kw_maxdepth kwargs of None \<Rightarrow> maxdepth self | Some m \<Rightarrow> m)"
      and "depth = (case kw_depth kwargs of None \<Rightarrow> 0 | Some d \<Rightarrow> d)"
  shows "dump self el kwargs = print_all (map (render self rs) (preorder_visits rs md el depth))
       \<and> subseq (map fst (preorder_visits rs md el depth)) (el # iterdescendants el)
       \<and> hd (preorder_visits rs md el depth) = (el, depth)
       \<and> (\<forall>xs ys d. preorder_visits_list rs md (xs @ ys) d
             = preorder_visits_list rs md xs d @ preorder_visits_list rs md ys d)"
proof -
  have "dump self el kwargs = dump_inner self rs md el depth"
    using assms by (simp add: dump_def)
  moreover have "hd (preorder_visits rs md el depth) = (el, depth)"
    by (cases el) simp
  ultimately show ?thesis
    by (simp add: dump_print_all subseq_preorder_visits preorder_visits_list_append)
qed

theorem dump_is_preorder_witness:
  "dump class_defaults sample_tree no_kwargs
   = ([''Guide (/book):'',
       ''    [title] (/book/title): Guide'',
       ''    Intro (/book/chapter):'',
       ''        [title] (/book/chapter/title): Intro'',
       ''        [para] (/book/chapter/para):'' @ [CHR 0x0A] @ ''            Hello world''],
      Return ())"
proof -
  let ?rs = "[(Some ''section'', [(''with_text'', False)]),
              (Some ''para'', [(''linebreak'', True)]),
              (None, [(''recurse'', True)])]"
  have r: "resolve_rules class_defaults
             (case kw_rules no_kwargs of None \<Rightarrow> rules class_defaults | Some r \<Rightarrow> r)
           = Return ?rs"
    by (simp add: resolve_rules_def no_kwargs_def class_defaults_def)
  have m: "None = (case kw_maxdepth no_kwargs of
                     None \<Rightarrow> maxdepth class_defaults | Some m \<Rightarrow> m)"
    by (simp add: no_kwargs_def class_defaults_def)
  have d: "0 = (case kw_depth no_kwargs of None \<Rightarrow> 0 | Some d \<Rightarrow> d)"
    by (simp add: no_kwargs_def)
  have p: "print_all (map (render class_defaults ?rs) (preorder_visits ?rs None sample_tree 0))
           = ([''Guide (/book):'',
               ''    [title] (/book/title): Guide'',
               ''    Intro (/book/chapter):'',
               ''        [title] (/book/chapter/title): Intro'',
               ''        [para] (/book/chapter/para):'' @ [CHR 0x0A]
                 @ ''            Hello world''],
              Return ())"
    by code_simp
  from dump_is_preorder [OF r m d, of sample_tree] p show ?thesis by simp
qed

subsection \<open>Wrapping\<close>

lemma take_fitting_spec:
  "take_fitting wid chunks cl n = (cl', n', rest) \<Longrightarrow>
   \<exists>taken. cl' = cl @ taken \<and> chunks = taken @ rest
     \<and> n' = n + int (length (concat taken))
     \<and> (taken \<noteq> [] \<longrightarrow> n' \<le> wid)
     \<and> (rest \<noteq> [] \<longrightarrow> wid < n' + int (length (hd rest)))"
proof (induction chunks arbitrary: cl n)
  case Nil
  then show ?case by simp
next
  case (Cons c cs)
  show ?case
  proof (cases "n + int (length c) \<le> wid")
    case True
    with Cons.prems
    have "take_fitting wid cs (cl @ [c]) (n + int (length c)) = (cl', n', rest)"
      by simp
    from Cons.IH [OF this] obtain taken where
      t: "cl' = (cl @ [c]) @ taken" "cs = taken @ rest"
         "n' = n + int (length c) + int (length (concat taken))"
         "taken \<noteq> [] \<longrightarrow> n' \<le> wid"
         "rest \<noteq> [] \<longrightarrow> wid < n' + int (length (hd rest))"
      by blast
    have "n' \<le> wid"
    proof (cases "taken = []")
      case True
      with t(3) \<open>n + int (length c) \<le> wid\<close> show ?thesis by simp
    next
      case False
      with t(4) show ?thesis by simp
    qed
    with t show ?thesis
      by (intro exI [where x = "c # taken"]) simp
  next
    case False
    with Cons.prems show ?thesis
      by (intro exI [where x = "[]"]) auto
  qed
qed

lemma length_py_drop_le: "length (py_drop n s) \<le> length s"
  by (simp add: py_drop_def)

lemma length_py_drop_less: "0 < n \<Longrightarrow> s \<noteq> [] \<Longrightarrow> length (py_drop n s) < length s"
  by (cases s) (auto simp: py_drop_def)

lemma length_py_take_le: "0 \<le> n \<Longrightarrow> int (length (py_take n s)) \<le> n"
  by (simp add: py_take_def)

lemma set_py_take: "set (py_take n s) \<subseteq> set s"
  by (simp add: py_take_def set_take_subset)

lemma set_py_drop: "set (py_drop n s) \<subseteq> set s"
  by (simp add: py_drop_def set_drop_subset)

lemma wrap_step_spec:
  assumes st: "wrap_step w ii si (c # cs, lines) = (chunks', lines')"
  shows "\<exists>content.
      (lines' = lines \<or> lines' = lines @ [(if lines \<noteq> [] then si else ii) @ content])
    \<and> set content \<subseteq> \<Union> (set ` set (c # cs))
    \<and> (int (length (if lines \<noteq> [] then si else ii)) < w
          \<longrightarrow> int (length (if lines \<noteq> [] then si else ii)) + int (length content) \<le> w)
    \<and> \<Union> (set ` set chunks') \<subseteq> \<Union> (set ` set (c # cs))
    \<and> (lines \<noteq> [] \<or> int (length ii) \<le> w \<longrightarrow> size_chunks chunks' < size_chunks (c # cs))"
proof -
  define indent where "indent = (if lines \<noteq> [] then si else ii)"
  define wid where "wid = w - int (length indent)"
  define chunks1 where "chunks1 = (if strip_is_empty c \<and> lines \<noteq> [] then cs else c # cs)"
  obtain cur_line cur_len chunks2 where
    tf: "take_fitting wid chunks1 [] 0 = (cur_line, cur_len, chunks2)"
    by (cases "take_fitting wid chunks1 [] 0") auto
  define long where "long = (chunks2 \<noteq> [] \<and> wid < int (length (hd chunks2)))"
  obtain cur_line2 chunks3 where
    hl: "(if long then handle_long_word chunks2 cur_line cur_len wid else (cur_line, chunks2))
         = (cur_line2, chunks3)"
    by (cases "if long then handle_long_word chunks2 cur_line cur_len wid
               else (cur_line, chunks2)") auto
  define cur_line3 where
    "cur_line3 = (if cur_line2 \<noteq> [] \<and> strip_is_empty (last cur_line2)
                  then butlast cur_line2 else cur_line2)"
  have step: "wrap_step w ii si (c # cs, lines)
              = (chunks3, if cur_line3 \<noteq> [] then lines @ [indent @ concat cur_line3] else lines)"
    using tf hl unfolding indent_def wid_def chunks1_def long_def cur_line3_def
    by (simp add: Let_def)
  with st have c': "chunks' = chunks3"
    and l': "lines' = (if cur_line3 \<noteq> [] then lines @ [indent @ concat cur_line3] else lines)"
    by simp_all
  from take_fitting_spec [OF tf] have
    t: "chunks1 = cur_line @ chunks2" "cur_len = int (length (concat cur_line))"
       "cur_line \<noteq> [] \<longrightarrow> cur_len \<le> wid"
       "chunks2 \<noteq> [] \<longrightarrow> wid < cur_len + int (length (hd chunks2))"
    by auto
  have sub1: "\<Union> (set ` set chunks1) \<subseteq> \<Union> (set ` set (c # cs))"
    by (auto simp: chunks1_def)
  have size1: "size_chunks chunks1 \<le> size_chunks (c # cs)"
    by (simp add: chunks1_def size_chunks_def)
  \<comment> \<open>the long word\<close>
  have h: "set (concat cur_line2) \<subseteq> \<Union> (set ` set chunks1)
         \<and> \<Union> (set ` set chunks3) \<subseteq> \<Union> (set ` set chunks1)
         \<and> size_chunks chunks3 \<le> size_chunks chunks2
         \<and> (1 \<le> wid \<longrightarrow> int (length (concat cur_line2)) \<le> wid)
         \<and> (cur_line = [] \<and> chunks2 \<noteq> [] \<and> (hd chunks2 \<noteq> [] \<or> 0 \<le> wid)
              \<longrightarrow> size_chunks chunks3 < size_chunks chunks2)"
  proof (cases long)
    case False
    with hl have e: "cur_line2 = cur_line" "chunks3 = chunks2" by simp_all
    have "size_chunks chunks3 < size_chunks chunks2"
      if "cur_line = []" "chunks2 \<noteq> []" "hd chunks2 \<noteq> [] \<or> 0 \<le> wid"
    proof -
      from that t(2) have "cur_len = 0" by simp
      with t(4) that(2) have "wid < int (length (hd chunks2))" by simp
      with False that(2) show ?thesis by (simp add: long_def)
    qed
    moreover have "int (length (concat cur_line2)) \<le> wid" if "1 \<le> wid"
      using that t(2,3) e by (cases "cur_line = []") auto
    ultimately show ?thesis using e t(1) by auto
  next
    case True
    then obtain x xs where c2: "chunks2 = x # xs" and xl: "wid < int (length x)"
      by (cases chunks2) (auto simp: long_def)
    define space_left where "space_left = (if wid < 1 then 1 else wid - cur_len)"
    from hl True c2 have e: "cur_line2 = cur_line @ [py_take space_left x]"
      "chunks3 = py_drop space_left x # xs"
      by (simp_all add: space_left_def Let_def)
    have a: "set (concat cur_line2) \<subseteq> \<Union> (set ` set chunks1)"
      using e(1) t(1) c2 set_py_take [of space_left x] by auto
    have b: "\<Union> (set ` set chunks3) \<subseteq> \<Union> (set ` set chunks1)"
      using e(2) t(1) c2 set_py_drop [of space_left x] by auto
    have s: "size_chunks chunks3 \<le> size_chunks chunks2"
      using length_py_drop_le [of space_left x] by (simp add: e c2 size_chunks_def)
    have wd: "int (length (concat cur_line2)) \<le> wid" if "1 \<le> wid"
    proof -
      from that t(2,3) have "cur_len \<le> wid" by (cases "cur_line = []") auto
      with that have "0 \<le> space_left" "space_left = wid - cur_len"
        by (simp_all add: space_left_def)
      with length_py_take_le [of space_left x] t(2) show ?thesis by (simp add: e)
    qed
    have strict: "size_chunks chunks3 < size_chunks chunks2"
      if "cur_line = []" "hd chunks2 \<noteq> [] \<or> 0 \<le> wid"
    proof -
      from that(1) t(2) have cl: "cur_len = 0" by simp
      from that(2) xl c2 have xne: "x \<noteq> []" by auto
      from cl xl have "0 < space_left" by (auto simp: space_left_def)
      from length_py_drop_less [OF this xne] show ?thesis
        by (simp add: e c2 size_chunks_def)
    qed
    from a b s wd strict show ?thesis by blast
  qed
  have sub3: "set (concat cur_line3) \<subseteq> set (concat cur_line2)"
    by (cases cur_line2 rule: rev_cases) (auto simp: cur_line3_def)
  have len3: "length (concat cur_line3) \<le> length (concat cur_line2)"
    by (cases cur_line2 rule: rev_cases) (auto simp: cur_line3_def)
  have size2: "size_chunks chunks2 \<le> size_chunks chunks1"
    "cur_line \<noteq> [] \<longrightarrow> size_chunks chunks2 < size_chunks chunks1"
    by (auto simp: t(1) size_chunks_def)
  have decrease: "size_chunks chunks' < size_chunks (c # cs)"
    if "lines \<noteq> [] \<or> int (length ii) \<le> w"
  proof (cases "strip_is_empty c \<and> lines \<noteq> []")
    case True
    then have "size_chunks chunks1 < size_chunks (c # cs)"
      by (simp add: chunks1_def size_chunks_def)
    with size2(1) h c' show ?thesis by simp
  next
    case False
    then have c1: "chunks1 = c # cs" by (simp add: chunks1_def)
    show ?thesis
    proof (cases "cur_line = []")
      case False
      with size2(2) h c' size1 show ?thesis by simp
    next
      case True
      with t(1) c1 have c2: "chunks2 = c # cs" by simp
      have "c \<noteq> [] \<or> 0 \<le> wid"
      proof (cases "lines = []")
        case True
        with that show ?thesis by (simp add: wid_def indent_def)
      next
        case False
        with \<open>\<not> (strip_is_empty c \<and> lines \<noteq> [])\<close> show ?thesis
          by (auto simp: strip_is_empty_def)
      qed
      with h True c2 have "size_chunks chunks3 < size_chunks chunks2" by simp
      with c2 c' show ?thesis by simp
    qed
  qed
  have bound: "int (length indent) + int (length (concat cur_line3)) \<le> w"
    if "int (length indent) < w"
  proof -
    from that have "1 \<le> wid" by (simp add: wid_def)
    with h have "int (length (concat cur_line2)) \<le> wid" by simp
    with len3 show ?thesis by (simp add: wid_def)
  qed
  have A: "lines' = lines \<or> lines' = lines @ [indent @ concat cur_line3]"
    using l' by auto
  have B: "set (concat cur_line3) \<subseteq> \<Union> (set ` set (c # cs))"
    using sub3 h sub1 by blast
  have C: "int (length indent) < w
           \<longrightarrow> int (length indent) + int (length (concat cur_line3)) \<le> w"
    using bound by blast
  have D: "\<Union> (set ` set chunks') \<subseteq> \<Union> (set ` set (c # cs))"
    using h sub1 c' by blast
  have E: "lines \<noteq> [] \<or> int (length ii) \<le> w
           \<longrightarrow> size_chunks chunks' < size_chunks (c # cs)"
    using decrease by blast
  from A B C D E show ?thesis unfolding indent_def by blast
qed

lemma wrap_loop_returns:
  assumes "int (length ii) \<le> w"
  shows "\<exists>t. while_option (\<lambda>(cs, lines). cs \<noteq> []) (wrap_step w ii si) (chunks, []) = Some t"
proof (rule measure_while_option_Some
    [where P = "\<lambda>s. True" and f = "\<lambda>(cs, lines). size_chunks cs"])
  fix s :: "string list \<times> string list"
  assume b: "case s of (cs, lines) \<Rightarrow> cs \<noteq> []"
  obtain cs lines where s: "s = (cs, lines)" by (cases s)
  with b obtain c cs' where cs: "cs = c # cs'" by (cases cs) auto
  obtain chunks' lines' where st: "wrap_step w ii si (c # cs', lines) = (chunks', lines')"
    by (cases "wrap_step w ii si (c # cs', lines)")
  from wrap_step_spec [OF st] assms have "size_chunks chunks' < size_chunks (c # cs')"
    by blast
  then show "True \<and> (case wrap_step w ii si s of (cs, lines) \<Rightarrow> size_chunks cs)
                  < (case s of (cs, lines) \<Rightarrow> size_chunks cs)"
    using st by (simp add: s cs del: wrap_step.simps)
qed simp

lemma wrap_loop_lines:
  assumes res: "while_option (\<lambda>(cs, lines). cs \<noteq> []) (wrap_step w ii si) (chunks, []) = Some (cs', ls)"
  shows "well_indented ii si ls
       \<and> (int (length ii) < w \<and> int (length si) < w \<longrightarrow> (\<forall>l \<in> set ls. int (length l) \<le> w))
       \<and> (\<forall>l \<in> set ls. set l \<subseteq> set ii \<union> set si \<union> \<Union> (set ` set chunks))"
proof -
  define S where "S = set ii \<union> set si \<union> \<Union> (set ` set chunks)"
  define P where "P = (\<lambda>s :: string list \<times> string list.
     \<Union> (set ` set (fst s)) \<subseteq> S
     \<and> well_indented ii si (snd s)
     \<and> (int (length ii) < w \<and> int (length si) < w \<longrightarrow> (\<forall>l \<in> set (snd s). int (length l) \<le> w))
     \<and> (\<forall>l \<in> set (snd s). set l \<subseteq> S))"
  have step: "P (wrap_step w ii si s)" if "P s" "case s of (cs, lines) \<Rightarrow> cs \<noteq> []" for s
  proof -
    obtain cs lines where s: "s = (cs, lines)" by (cases s)
    with that(2) obtain c cs0 where cs: "cs = c # cs0" by (cases cs) auto
    obtain chunks' lines' where st: "wrap_step w ii si (c # cs0, lines) = (chunks', lines')"
      by (cases "wrap_step w ii si (c # cs0, lines)")
    define indent where "indent = (if lines \<noteq> [] then si else ii)"
    from wrap_step_spec [OF st] obtain content where
      l': "lines' = lines \<or> lines' = lines @ [indent @ content]"
      and ch: "set content \<subseteq> \<Union> (set ` set (c # cs0))"
      and bd: "int (length indent) < w \<longrightarrow> int (length indent) + int (length content) \<le> w"
      and sub: "\<Union> (set ` set chunks') \<subseteq> \<Union> (set ` set (c # cs0))"
      unfolding indent_def by blast
    from that(1) have p: "\<Union> (set ` set (c # cs0)) \<subseteq> S"
      "well_indented ii si lines"
      "int (length ii) < w \<and> int (length si) < w \<longrightarrow> (\<forall>l \<in> set lines. int (length l) \<le> w)"
      "\<forall>l \<in> set lines. set l \<subseteq> S"
      by (simp_all add: P_def s cs)
    have 1: "\<Union> (set ` set chunks') \<subseteq> S"
      using sub p(1) by (rule subset_trans)
    have 2: "well_indented ii si lines'"
      using l' p(2) by (cases lines) (auto simp: well_indented_def indent_def)
    have 3: "\<forall>l \<in> set lines'. int (length l) \<le> w"
      if "int (length ii) < w \<and> int (length si) < w"
    proof -
      from that have "int (length indent) < w" by (simp add: indent_def)
      with bd have "int (length (indent @ content)) \<le> w" by simp
      with l' p(3) that show ?thesis by auto
    qed
    have "set indent \<subseteq> S" by (auto simp: indent_def S_def)
    moreover from ch p(1) have "set content \<subseteq> S" by (rule subset_trans)
    ultimately have "set (indent @ content) \<subseteq> S" by simp
    with l' p(4) have 4: "\<forall>l \<in> set lines'. set l \<subseteq> S"
      by (elim disjE) simp_all
    from 1 2 3 4 st show ?thesis by (simp add: P_def s cs del: wrap_step.simps)
  qed
  have init: "P (chunks, [])" by (auto simp: P_def well_indented_def S_def)
  from while_option_rule [where P = P, OF step res init] show ?thesis
    by (simp add: P_def S_def)
qed

lemma while_option_fixpoint:
  assumes "c s = s" "b s"
  shows "while_option b c s = None"
proof (cases "while_option b c s")
  case None
  then show ?thesis .
next
  case (Some t)
  from while_option_stop2 [OF this] obtain k where k: "t = (c ^^ k) s" "\<not> b t" by blast
  have "(c ^^ k) s = s" by (induction k) (simp_all add: assms(1))
  with k assms(2) show ?thesis by simp
qed

lemma concat_re_split: "concat (re_split prev acc s) = rev acc @ s"
proof (induction prev acc s rule: re_split.induct)
  case (1 prev acc)
  then show ?case by simp
next
  case (2 prev acc c cs)
  show ?case
  proof (cases "match_wordsep prev (c # cs) = 0")
    case True
    with 2(1) show ?thesis by simp
  next
    case False
    with 2(2) [OF refl False] show ?thesis
      by (simp add: Let_def del: take_Suc_Cons drop_Suc_Cons take.simps drop.simps)
  qed
qed

lemma concat_split: "concat (split txt) = txt"
proof -
  have "concat (filter (\<lambda>c. c \<noteq> []) xs) = concat xs" for xs :: "string list"
    by (induction xs) auto
  then show ?thesis by (simp add: split_def concat_re_split)
qed

lemma newline_munge: "CHR 0x0A \<notin> set (munge_whitespace txt)"
  by (auto simp: munge_whitespace_def isspace_def whitespace_def)

lemma split_on_not_Nil: "split_on sep s \<noteq> []"
  by (induction s) (auto split: list.splits)

lemma split_on_no_sep: "sep \<notin> set l \<Longrightarrow> split_on sep l = [l]"
  by (induction l) (auto split: list.splits)

lemma split_on_append_sep:
  "sep \<notin> set l \<Longrightarrow> split_on sep (l @ sep # r) = l # split_on sep r"
  by (induction l) (auto simp: split_on_not_Nil split: list.splits)

lemma split_on_join:
  "ls \<noteq> [] \<Longrightarrow> \<forall>l \<in> set ls. sep \<notin> set l \<Longrightarrow> split_on sep (join [sep] ls) = ls"
proof (induction ls)
  case Nil
  then show ?case by simp
next
  case (Cons l ls)
  show ?case
  proof (cases ls)
    case Nil
    with Cons.prems show ?thesis by (simp add: split_on_no_sep)
  next
    case (Cons m ms)
    with Cons.IH Cons.prems have "split_on sep (join [sep] (m # ms)) = m # ms" by simp
    with Cons Cons.prems show ?thesis by (simp add: split_on_append_sep)
  qed
qed

lemma indent_of_replicate: "indent_of depth = replicate (4 * nat depth) CHR '' ''"
proof -
  have r4: "''    '' = replicate 4 CHR '' ''" by (simp add: eval_nat_numeral)
  have "concat (replicate n (replicate 4 c)) = replicate (4 * n) c" for n and c :: char
    by (induction n) (simp_all add: replicate_add [symmetric])
  then show ?thesis by (simp only: indent_of_def r4)
qed

lemma subsequent_indent_replicate:
  "indent_of depth @ ''  '' = replicate (4 * nat depth + 2) CHR '' ''"
proof -
  have "''  '' = replicate 2 CHR '' ''" by (simp add: eval_nat_numeral)
  then show ?thesis by (simp only: indent_of_replicate replicate_add [symmetric])
qed

lemma wrap_returns:
  assumes "0 < w" "int (length ii) \<le> w"
  shows "\<exists>ls. wrap txt w ii si = Return ls"
proof -
  from wrap_loop_returns [OF assms(2)] obtain cs ls where
    "while_option (\<lambda>(cs, lines). cs \<noteq> []) (wrap_step w ii si) (split (munge_whitespace txt), [])
     = Some (cs, ls)"
    by (metis surj_pair)
  with assms(1) show ?thesis by (simp add: wrap_def wrap_chunks_def)
qed

lemma wrap_lines:
  assumes "wrap txt w ii si = Return ls"
  shows "well_indented ii si ls
       \<and> (int (length ii) < w \<and> int (length si) < w \<longrightarrow> (\<forall>l \<in> set ls. int (length l) \<le> w))
       \<and> (CHR 0x0A \<notin> set ii \<union> set si \<longrightarrow> (\<forall>l \<in> set ls. CHR 0x0A \<notin> set l))"
proof -
  let ?chunks = "split (munge_whitespace txt)"
  from assms obtain cs where
    res: "while_option (\<lambda>(cs, lines). cs \<noteq> []) (wrap_step w ii si) (?chunks, []) = Some (cs, ls)"
    by (auto simp: wrap_def wrap_chunks_def split: if_splits option.splits)
  have "\<Union> (set ` set ?chunks) = set (concat ?chunks)" by simp
  also have "\<dots> = set (munge_whitespace txt)" by (simp only: concat_split)
  finally have "CHR 0x0A \<notin> \<Union> (set ` set ?chunks)" by (simp only: newline_munge not_False_eq_True)
  with wrap_loop_lines [OF res] show ?thesis by blast
qed

lemma wrap_empty: "0 < w \<Longrightarrow> wrap [] w ii si = Return []"
  by (simp add: wrap_def wrap_chunks_def munge_whitespace_def split_def while_option_unfold)

lemma wrap_nonpositive: "w \<le> 0 \<Longrightarrow> wrap txt w ii si = Raise ValueError"
  by (simp add: wrap_def wrap_chunks_def)

lemma dedent_empty: "dedent [] = []"
  by (simp add: dedent_def)


text \<open>
  Claim C6, amended. \<^verbatim>\<open>relwrap\<close> joins the lines that \<^verbatim>\<open>wrap\<close> returns; they are the
  physical lines of the block. The first begins with the \<open>4 * depth\<close> blanks of the initial
  indent and every continuation line with the \<open>4 * depth + 2\<close> blanks of the subsequent
  indent; what follows the indent is material of the logical line, which keeps the
  blanks it begins with. If \<open>4 * depth + 2\<close> is less than the width, \<^verbatim>\<open>wrap\<close> returns and
  no line is longer than the width.
\<close>

theorem relwrap_lines:
  "(\<forall>ls. wrap txt (width self) (indent_of depth) (indent_of depth @ ''  '') = Return ls \<longrightarrow>
      relwrap self txt depth = Return (join [CHR 0x0A] ls)
      \<and> (ls \<noteq> [] \<longrightarrow> split_on (CHR 0x0A) (join [CHR 0x0A] ls) = ls
                     \<and> prefix (replicate (4 * nat depth) CHR '' '') (hd ls))
      \<and> (\<forall>l \<in> set (tl ls). prefix (replicate (4 * nat depth + 2) CHR '' '') l))
   \<and> (int (4 * nat depth + 2) < width self \<longrightarrow>
        (\<exists>ls. wrap txt (width self) (indent_of depth) (indent_of depth @ ''  '') = Return ls
              \<and> (\<forall>l \<in> set ls. int (length l) \<le> width self)))"
proof -
  let ?ii = "indent_of depth" and ?si = "indent_of depth @ ''  ''"
  have si: "?si = replicate (4 * nat depth + 2) CHR '' ''"
    by (rule subsequent_indent_replicate)
  have first: "relwrap self txt depth = Return (join [CHR 0x0A] ls)
      \<and> (ls \<noteq> [] \<longrightarrow> split_on (CHR 0x0A) (join [CHR 0x0A] ls) = ls
                     \<and> prefix (replicate (4 * nat depth) CHR '' '') (hd ls))
      \<and> (\<forall>l \<in> set (tl ls). prefix (replicate (4 * nat depth + 2) CHR '' '') l)"
    if w: "wrap txt (width self) ?ii ?si = Return ls" for ls
  proof -
    have nl: "CHR 0x0A \<notin> set ?ii \<union> set ?si" by (auto simp: indent_of_replicate)
    from wrap_lines [OF w] nl have wi: "well_indented ?ii ?si ls"
      and no: "\<forall>l \<in> set ls. CHR 0x0A \<notin> set l"
      by blast+
    from no have "split_on (CHR 0x0A) (join [CHR 0x0A] ls) = ls" if "ls \<noteq> []"
      using that by (simp add: split_on_join)
    moreover from wi have "ls \<noteq> [] \<longrightarrow> prefix (replicate (4 * nat depth) CHR '' '') (hd ls)"
      by (simp add: well_indented_def indent_of_replicate)
    moreover from wi have "\<forall>l \<in> set (tl ls). prefix (replicate (4 * nat depth + 2) CHR '' '') l"
      unfolding well_indented_def si by blast
    moreover have "relwrap self txt depth = Return (join [CHR 0x0A] ls)"
      by (simp add: relwrap_def w)
    ultimately show ?thesis by blast
  qed
  have second: "\<exists>ls. wrap txt (width self) ?ii ?si = Return ls
              \<and> (\<forall>l \<in> set ls. int (length l) \<le> width self)"
    if b: "int (4 * nat depth + 2) < width self"
  proof -
    from b have "0 < width self" "int (length ?ii) \<le> width self"
      by (auto simp: indent_of_replicate split: if_splits)
    from wrap_returns [OF this] obtain ls where w: "wrap txt (width self) ?ii ?si = Return ls"
      by blast
    from b have "int (length ?ii) < width self \<and> int (length ?si) < width self"
      by (auto simp: indent_of_replicate split: if_splits)
    with wrap_lines [OF w] have "\<forall>l \<in> set ls. int (length l) \<le> width self" by blast
    with w show ?thesis by blast
  qed
  from first second show ?thesis by blast
qed

theorem relwrap_lines_witness:
  "int (4 * nat 1 + 2) < width (class_defaults\<lparr>width := 16\<rparr>)
   \<and> wrap ''Command reference'' (width (class_defaults\<lparr>width := 16\<rparr>)) (indent_of 1)
       (indent_of 1 @ ''  '') = Return [''    Command'', ''      reference'']
   \<and> relwrap (class_defaults\<lparr>width := 16\<rparr>) ''Command reference'' 1
       = Return (''    Command'' @ [CHR 0x0A] @ ''      reference'')"
proof -
  have w: "wrap ''Command reference'' (width (class_defaults\<lparr>width := 16\<rparr>)) (indent_of 1)
       (indent_of 1 @ ''  '') = Return [''    Command'', ''      reference'']"
    by code_simp
  have b: "int (4 * nat 1 + 2) < width (class_defaults\<lparr>width := 16\<rparr>)"
    by simp
  from relwrap_lines [of "''Command reference''" "class_defaults\<lparr>width := 16\<rparr>" 1] w b
  show ?thesis by simp
qed

text \<open>
  Claim C6 as stated fails. With the default width of 80 and a depth of 20 the indents
  alone fill the width: \<^verbatim>\<open>wrap\<close> then puts one character on each line, and the lines are 81
  and 83 characters long. And a logical line that begins with a blank keeps it, so at
  depth 0 its physical line begins with a blank although \<open>4 * depth\<close> is 0.
\<close>

theorem relwrap_lines_counterexample:
  "wrap ''ab'' (width class_defaults) (indent_of 20) (indent_of 20 @ ''  '')
     = Return [replicate 80 CHR '' '' @ ''a'', replicate 82 CHR '' '' @ ''b'']
   \<and> width class_defaults < int (length (replicate 80 CHR '' '' @ ''a''))
   \<and> relwrap class_defaults '' x'' 0 = Return '' x''"
proof -
  have "wrap ''ab'' (width class_defaults) (indent_of 20) (indent_of 20 @ ''  '')
     = Return [replicate 80 CHR '' '' @ ''a'', replicate 82 CHR '' '' @ ''b'']"
    by code_simp
  moreover have "width class_defaults < int (length (replicate 80 CHR '' '' @ ''a''))"
    by (simp add: class_defaults_def)
  moreover have "relwrap class_defaults '' x'' 0 = Return '' x''"
    by code_simp
  ultimately show ?thesis by blast
qed

subsection \<open>Rendering one node\<close>

text \<open>
  Claim C4, amended. With \<^verbatim>\<open>linebreak\<close> true, \<^verbatim>\<open>format_element\<close> wraps the summary
  \<^verbatim>\<open>"<label> (<path>):"\<close> at the depth, then the dedented text of the node at the depth
  plus one, and returns the two blocks joined by a newline. If the width is positive and
  not less than the indent \<open>4 * (depth + 1)\<close>, both wraps return. For a node with no text
  or an empty text the second block is the empty string: the result is the summary block
  followed by a newline, so the line after the summary is empty and carries no
  indentation.
\<close>

theorem format_element_linebreak:
  "\<exists>label txt.
     format_element self element depth True with_text
       = bind (relwrap self (label @ '' ('' @ path element @ ''):'') depth)
           (\<lambda>summary. bind (relwrap self txt (depth + 1))
              (\<lambda>body. Return (summary @ [CHR 0x0A] @ body)))
     \<and> label = (case find_child element ''title'' of
                  None \<Rightarrow> ''['' @ tag element @ '']''
                | Some t \<Rightarrow> (case text_of t of
                               None \<Rightarrow> ''['' @ tag element @ '']''
                             | Some s \<Rightarrow> if s \<noteq> [] then s else ''['' @ tag element @ '']''))
     \<and> txt = dedent (case text_of element of None \<Rightarrow> [] | Some s \<Rightarrow> s)
     \<and> (0 < width self \<and> int (4 * nat (depth + 1)) \<le> width self \<longrightarrow>
          (\<exists>summary body.
             relwrap self (label @ '' ('' @ path element @ ''):'') depth = Return summary
             \<and> relwrap self txt (depth + 1) = Return body
             \<and> format_element self element depth True with_text
                 = Return (summary @ [CHR 0x0A] @ body)
             \<and> (text_of element = None \<or> text_of element = Some [] \<longrightarrow> body = [])))"
proof -
  let ?bracket = "''['' @ tag element @ '']''"
  let ?label = "case find_child element ''title'' of
                  None \<Rightarrow> ?bracket
                | Some t \<Rightarrow> (case text_of t of None \<Rightarrow> ?bracket
                             | Some s \<Rightarrow> if s \<noteq> [] then s else ?bracket)"
  let ?txt = "dedent (case text_of element of None \<Rightarrow> [] | Some s \<Rightarrow> s)"
  let ?head = "?label @ '' ('' @ path element @ ''):''"
  have eq: "format_element self element depth True with_text
       = bind (relwrap self ?head depth)
           (\<lambda>summary. bind (relwrap self ?txt (depth + 1))
              (\<lambda>body. Return (summary @ [CHR 0x0A] @ body)))"
    by (simp add: format_element_def Let_def split: option.splits)
  have total: "\<exists>summary body.
             relwrap self ?head depth = Return summary
             \<and> relwrap self ?txt (depth + 1) = Return body
             \<and> format_element self element depth True with_text
                 = Return (summary @ [CHR 0x0A] @ body)
             \<and> (text_of element = None \<or> text_of element = Some [] \<longrightarrow> body = [])"
    if w: "0 < width self \<and> int (4 * nat (depth + 1)) \<le> width self"
  proof -
    from w have w0: "0 < width self" and w1: "int (length (indent_of depth)) \<le> width self"
      and w2: "int (length (indent_of (depth + 1))) \<le> width self"
      by (auto simp: indent_of_replicate split: if_splits)
    from wrap_returns [OF w0 w1] obtain ls where
      "wrap ?head (width self) (indent_of depth) (indent_of depth @ ''  '') = Return ls"
      by blast
    then have s: "relwrap self ?head depth = Return (join [CHR 0x0A] ls)"
      by (simp add: relwrap_def)
    from wrap_returns [OF w0 w2] obtain ms where
      m: "wrap ?txt (width self) (indent_of (depth + 1)) (indent_of (depth + 1) @ ''  '')
          = Return ms"
      by blast
    then have b: "relwrap self ?txt (depth + 1) = Return (join [CHR 0x0A] ms)"
      by (simp add: relwrap_def)
    have "join [CHR 0x0A] ms = []" if "text_of element = None \<or> text_of element = Some []"
    proof -
      from that have "?txt = []" by (auto simp: dedent_empty)
      with m wrap_empty [OF w0] have "ms = []" by simp
      then show ?thesis by simp
    qed
    with s b eq show ?thesis by simp
  qed
  from eq total show ?thesis by blast
qed

theorem format_element_linebreak_witness:
  "0 < width class_defaults \<and> int (4 * nat (1 + 1)) \<le> width class_defaults
   \<and> format_element class_defaults (Element ''para'' (Some []) ''/book/para'' []) 1 True True
       = Return (''    [para] (/book/para):'' @ [CHR 0x0A])"
proof -
  let ?e = "Element ''para'' (Some []) ''/book/para'' []"
  have w: "0 < width class_defaults \<and> int (4 * nat (1 + 1)) \<le> width class_defaults"
    by (simp add: class_defaults_def)
  have l: "(case find_child ?e ''title'' of
                  None \<Rightarrow> ''['' @ tag ?e @ '']''
                | Some t \<Rightarrow> (case text_of t of
                               None \<Rightarrow> ''['' @ tag ?e @ '']''
                             | Some s \<Rightarrow> if s \<noteq> [] then s else ''['' @ tag ?e @ '']''))
           = ''[para]''"
    by (simp add: find_child_def)
  have r: "relwrap class_defaults (''[para]'' @ '' ('' @ path ?e @ ''):'') 1
           = Return ''    [para] (/book/para):''"
    by code_simp
  from format_element_linebreak [of class_defaults ?e 1 True] w
  obtain summary body where
    "relwrap class_defaults (''[para]'' @ '' ('' @ path ?e @ ''):'') 1 = Return summary"
    "format_element class_defaults ?e 1 True True = Return (summary @ [CHR 0x0A] @ body)"
    "body = []"
    unfolding l by auto
  with r w show ?thesis by simp
qed

text \<open>
  Claim C4 as stated fails. For a node without text at depth 1 the result is the summary
  line and a newline: the second physical line is the empty string, not a line indented
  by the 8 blanks of depth 2. With a width of 0 the call raises \<^verbatim>\<open>ValueError\<close> instead of
  returning two blocks. At depth 20 with the default width, the indent of the text block
  (84 blanks) is wider than the width and the text begins with a newline, which \<^verbatim>\<open>wrap\<close>
  turns into a blank: its loop then makes no progress and the call never returns.
\<close>

theorem format_element_linebreak_counterexample:
  "format_element class_defaults (Element ''para'' None ''/book/para'' []) 1 True True
     = Return (''    [para] (/book/para):'' @ [CHR 0x0A])
   \<and> split_on (CHR 0x0A) (''    [para] (/book/para):'' @ [CHR 0x0A])
       = [''    [para] (/book/para):'', []]
   \<and> [] \<noteq> indent_of (1 + 1)
   \<and> format_element (class_defaults\<lparr>width := 0\<rparr>) (Element ''para'' None ''/book/para'' []) 1
       True True = Raise ValueError
   \<and> format_element class_defaults (Element ''para'' (Some (CHR 0x0A # ''x'')) ''/p'' []) 20
       True True = Hang"
proof -
  let ?e = "Element ''para'' (Some (CHR 0x0A # ''x'')) ''/p'' []"
  have 1: "format_element class_defaults (Element ''para'' None ''/book/para'' []) 1 True True
     = Return (''    [para] (/book/para):'' @ [CHR 0x0A])"
    by code_simp
  have 2: "split_on (CHR 0x0A) (''    [para] (/book/para):'' @ [CHR 0x0A])
       = [''    [para] (/book/para):'', []]"
    by simp
  have 3: "[] \<noteq> indent_of (1 + 1)" by (simp add: indent_of_def)
  have 4: "format_element (class_defaults\<lparr>width := 0\<rparr>) (Element ''para'' None ''/book/para'' [])
             1 True True = Raise ValueError"
    by code_simp
  \<comment> \<open>the wrap of the text never returns\<close>
  let ?b = "\<lambda>(cs, lines). cs \<noteq> ([] :: string list)"
  let ?step = "wrap_step 80 (indent_of 21) (indent_of 21 @ ''  '')"
  have ch: "split (munge_whitespace (CHR 0x0A # ''x'')) = ['' '', ''x'']" by code_simp
  have s1: "?step (['' '', ''x''], []) = ([[], ''x''], [])" by code_simp
  have s2: "?step ([[], ''x''], []) = ([[], ''x''], [])" by code_simp
  have "while_option ?b ?step ([[], ''x''], []) = None"
    by (rule while_option_fixpoint [where c = ?step and s = "([[], ''x''], [])"])
      (simp_all add: s2 del: wrap_step.simps)
  then have "while_option ?b ?step (['' '', ''x''], []) = None"
    by (subst while_option_unfold) (simp add: s1 del: wrap_step.simps)
  then have hang: "relwrap class_defaults (CHR 0x0A # ''x'') 21 = Hang"
    by (simp add: relwrap_def wrap_def wrap_chunks_def ch class_defaults_def)
  have d: "dedent (CHR 0x0A # ''x'') = CHR 0x0A # ''x''" by code_simp
  have "0 < width class_defaults" "int (length (indent_of 20)) \<le> width class_defaults"
    by (simp_all add: class_defaults_def indent_of_replicate)
  from wrap_returns [OF this] obtain ls where
    "wrap ''[para] (/p):'' (width class_defaults) (indent_of 20) (indent_of 20 @ ''  '')
     = Return ls"
    by blast
  then have "relwrap class_defaults ''[para] (/p):'' 20 = Return (join [CHR 0x0A] ls)"
    by (simp add: relwrap_def)
  with hang d have 5: "format_element class_defaults ?e 20 True True = Hang"
    by (simp add: format_element_def find_child_def)
  from 1 2 3 4 5 show ?thesis by blast
qed

text \<open>
  Claim C5. Without \<^verbatim>\<open>linebreak\<close>, \<^verbatim>\<open>format_element\<close> is \<^verbatim>\<open>relwrap\<close> at the depth of one
  logical line: \<^verbatim>\<open>"<label> (<path>): <text>"\<close> with \<^verbatim>\<open>with_text\<close>, \<^verbatim>\<open>"<label> (<path>)"\<close>
  without. The label is the text of the first child with the tag \<^verbatim>\<open>title\<close> if there is
  such a child and its text is not empty, and \<^verbatim>\<open>[<tag>]\<close> otherwise; the text is the
  dedented text of the node, empty when the node has none.
\<close>

theorem format_element_one_line:
  "\<exists>label txt.
     format_element self element depth False with_text
       = relwrap self
           (if with_text then label @ '' ('' @ path element @ ''): '' @ txt
            else label @ '' ('' @ path element @ '')'') depth
     \<and> (\<forall>t s. find_child element ''title'' = Some t \<and> text_of t = Some s \<and> s \<noteq> []
            \<longrightarrow> label = s)
     \<and> ((find_child element ''title'' = None
          \<or> (\<exists>t. find_child element ''title'' = Some t
                  \<and> (text_of t = None \<or> text_of t = Some [])))
            \<longrightarrow> label = ''['' @ tag element @ '']'')
     \<and> txt = dedent (case text_of element of None \<Rightarrow> [] | Some s \<Rightarrow> s)
     \<and> (find_child element ''title'' = None
            \<longleftrightarrow> (\<forall>c \<in> set (getchildren element). tag c \<noteq> ''title''))
     \<and> (\<forall>t. find_child element ''title'' = Some t
            \<longrightarrow> (\<exists>before after. getchildren element = before @ t # after \<and> tag t = ''title''
                    \<and> (\<forall>c \<in> set before. tag c \<noteq> ''title'')))"
proof -
  let ?bracket = "''['' @ tag element @ '']''"
  let ?label = "case find_child element ''title'' of
                  None \<Rightarrow> ?bracket
                | Some t \<Rightarrow> (case text_of t of None \<Rightarrow> ?bracket
                             | Some s \<Rightarrow> if s \<noteq> [] then s else ?bracket)"
  let ?txt = "dedent (case text_of element of None \<Rightarrow> [] | Some s \<Rightarrow> s)"
  have eq: "format_element self element depth False with_text
       = relwrap self
           (if with_text then ?label @ '' ('' @ path element @ ''): '' @ ?txt
            else ?label @ '' ('' @ path element @ '')'') depth"
    by (simp add: format_element_def Let_def split: option.splits)
  have none: "find_child element ''title'' = None
            \<longleftrightarrow> (\<forall>c \<in> set (getchildren element). tag c \<noteq> ''title'')"
    by (auto simp: find_child_def find_None_iff)
  have some: "\<exists>before after. getchildren element = before @ t # after \<and> tag t = ''title''
                    \<and> (\<forall>c \<in> set before. tag c \<noteq> ''title'')"
    if "find_child element ''title'' = Some t" for t
  proof -
    from that obtain i where i: "i < length (getchildren element)"
      and t: "tag (getchildren element ! i) = ''title''" "t = getchildren element ! i"
      and b: "\<forall>j<i. tag (getchildren element ! j) \<noteq> ''title''"
      by (auto simp: find_child_def find_Some_iff)
    have "getchildren element
          = take i (getchildren element) @ t # drop (Suc i) (getchildren element)"
      using i t by (simp add: id_take_nth_drop)
    moreover have "\<forall>c \<in> set (take i (getchildren element)). tag c \<noteq> ''title''"
      using b i by (auto simp: in_set_conv_nth)
    ultimately show ?thesis using t by blast
  qed
  show ?thesis
    apply (rule exI [where x = ?label])
    apply (rule exI [where x = ?txt])
    using eq none some by auto
qed

theorem format_element_one_line_witness:
  "format_element class_defaults
     (Element ''section'' (Some ''body'') ''/s'' [Element ''title'' (Some ''Foo'') ''/s/title'' []])
     0 False True = Return ''Foo (/s): body''
   \<and> format_element class_defaults (Element ''section'' (Some ''body'') ''/s'' []) 0 False False
     = Return ''[section] (/s)''"
proof -
  let ?t = "Element ''title'' (Some ''Foo'') ''/s/title'' []"
  let ?e1 = "Element ''section'' (Some ''body'') ''/s'' [?t]"
  let ?e2 = "Element ''section'' (Some ''body'') ''/s'' []"
  have f1: "find_child ?e1 ''title'' = Some ?t \<and> text_of ?t = Some ''Foo'' \<and> ''Foo'' \<noteq> []"
    by (simp add: find_child_def)
  have f2: "find_child ?e2 ''title'' = None" by (simp add: find_child_def)
  have d: "dedent ''body'' = ''body''" by code_simp
  from format_element_one_line [of class_defaults ?e1 0 True] f1 d
  have r1: "format_element class_defaults ?e1 0 False True
            = relwrap class_defaults ''Foo (/s): body'' 0"
    by auto
  from format_element_one_line [of class_defaults ?e2 0 False] f2
  have r2: "format_element class_defaults ?e2 0 False False
            = relwrap class_defaults ''[section] (/s)'' 0"
    by auto
  have w1: "relwrap class_defaults ''Foo (/s): body'' 0 = Return ''Foo (/s): body''"
    by code_simp
  have w2: "relwrap class_defaults ''[section] (/s)'' 0 = Return ''[section] (/s)''"
    by code_simp
  from r1 r2 w1 w2 show ?thesis by simp
qed

subsection \<open>The tag graph\<close>

lemma set_unique_from: "set (unique_from found xs) = set xs - found"
  by (induction xs arbitrary: found) auto

lemma distinct_unique_from: "distinct (unique_from found xs)"
  by (induction xs arbitrary: found) (auto simp: set_unique_from)

lemma unique_from_snoc:
  "unique_from found (xs @ [y])
   = unique_from found xs @ (if y \<in> found \<union> set xs then [] else [y])"
  by (induction xs arbitrary: found) auto

lemma child_is_descendant: "c \<in> set cs \<Longrightarrow> c \<in> set (descendants_of_list cs)"
  by (induction cs) auto

lemma child_of_descendant:
  "d \<in> set (iterdescendants root) \<Longrightarrow> c \<in> set (getchildren d)
     \<Longrightarrow> c \<in> set (iterdescendants root)"
  "d \<in> set (descendants_of_list es) \<Longrightarrow> c \<in> set (getchildren d)
     \<Longrightarrow> c \<in> set (descendants_of_list es)"
proof (induction root and es arbitrary: d c and d c rule: iterdescendants_descendants_of_list.induct)
  case (1 tg tx pth chs)
  then show ?case by simp
next
  case 2
  then show ?case by simp
next
  case (3 e es)
  from "3.prems"(1) consider "d = e" | "d \<in> set (iterdescendants e)"
    | "d \<in> set (descendants_of_list es)"
    by auto
  then show ?case
  proof cases
    case 1
    with "3.prems"(2) have "c \<in> set (iterdescendants e)" by (cases e) (auto intro: child_is_descendant)
    then show ?thesis by simp
  next
    case 2
    from "3.IH"(1) [OF this "3.prems"(2)] show ?thesis by simp
  next
    case 3
    from "3.IH"(2) [OF this "3.prems"(2)] show ?thesis by simp
  qed
qed

lemma add_nodes_fresh:
  "distinct ns \<Longrightarrow> set ns \<inter> set (nodes g) = {} \<Longrightarrow>
   add_nodes g ns = Return (g\<lparr>nodes := nodes g @ ns\<rparr>)"
proof (induction ns arbitrary: g)
  case Nil
  then show ?case by simp
next
  case (Cons n ns)
  from Cons.prems have n: "n \<notin> set (nodes g)" by auto
  let ?g = "g\<lparr>nodes := nodes g @ [n]\<rparr>"
  from Cons.prems have "distinct ns" "set ns \<inter> set (nodes ?g) = {}" by auto
  from Cons.IH [OF this] n show ?case by (simp add: add_node_def)
qed

lemma add_child_edges_fresh:
  assumes "parent \<in> set (nodes g)" "set cs \<subseteq> set (nodes g)" "distinct cs"
    and "\<forall>c \<in> set cs. (parent, c) \<notin> set (edges g)"
  shows "add_child_edges g parent cs = Return (g\<lparr>edges := edges g @ map (Pair parent) cs\<rparr>)"
  using assms
proof (induction cs arbitrary: g)
  case Nil
  then show ?case by simp
next
  case (Cons c cs)
  let ?g = "g\<lparr>edges := edges g @ [(parent, c)]\<rparr>"
  from Cons.prems have e: "add_edge g (parent, c) = Return ?g"
    by (simp add: add_edge_def)
  from Cons.prems have "parent \<in> set (nodes ?g)" "set cs \<subseteq> set (nodes ?g)" "distinct cs"
    "\<forall>x \<in> set cs. (parent, x) \<notin> set (edges ?g)"
    by auto
  from Cons.IH [OF this] e show ?case by simp
qed

lemma add_parent_edges_fresh:
  assumes "distinct ps" "set ps \<subseteq> set (nodes g)"
    and "\<forall>p \<in> set ps. set (iter_unique_child_tags root p) \<subseteq> set (nodes g)"
    and "\<forall>p \<in> set ps. \<forall>c. (p, c) \<notin> set (edges g)"
  shows "add_parent_edges root g ps
         = Return (g\<lparr>edges := edges g
               @ concat (map (\<lambda>p. map (Pair p) (iter_unique_child_tags root p)) ps)\<rparr>)"
  using assms
proof (induction ps arbitrary: g)
  case Nil
  then show ?case by simp
next
  case (Cons p ps)
  let ?cs = "iter_unique_child_tags root p"
  let ?g = "g\<lparr>edges := edges g @ map (Pair p) ?cs\<rparr>"
  have dc: "distinct ?cs" by (simp add: iter_unique_child_tags_def distinct_unique_from)
  from Cons.prems dc have e: "add_child_edges g p ?cs = Return ?g"
    by (intro add_child_edges_fresh) auto
  from Cons.prems have "distinct ps" "set ps \<subseteq> set (nodes ?g)"
    "\<forall>q \<in> set ps. set (iter_unique_child_tags root q) \<subseteq> set (nodes ?g)"
    "\<forall>q \<in> set ps. \<forall>c. (q, c) \<notin> set (edges ?g)"
    by auto
  from Cons.IH [OF this] e show ?case by simp
qed

lemma child_tags_are_tags:
  "set (iter_unique_child_tags root p) \<subseteq> set (iter_tag_list root)"
  by (auto simp: iter_unique_child_tags_def iter_tag_list_def set_unique_from
      iterdescendants_tag_def intro: child_of_descendant(1))

lemma distinct_edge_list:
  "distinct ps \<Longrightarrow> (\<And>p. distinct (f p))
     \<Longrightarrow> distinct (concat (map (\<lambda>p. map (Pair p) (f p)) ps))"
  by (induction ps) (auto simp: distinct_map inj_on_def)

text \<open>
  Claim C9. \<^verbatim>\<open>build_tag_graph\<close> returns (no addition is refused) the graph whose nodes are
  the list of \<^verbatim>\<open>iter_tag_list\<close> and whose edges are, for each of these tags \<open>p\<close> in turn, the
  pairs of \<open>p\<close> with the tags of \<^verbatim>\<open>iter_unique_child_tags\<close>. The node list holds each tag of an
  element below the root once, in the order of first encounter in document order (a tag
  is yielded when it is met and has not been met before); the child tags of \<open>p\<close> are listed
  the same way over the children of the elements below the root whose tag is \<open>p\<close>. So
  there is an edge from \<open>p\<close> to \<open>c\<close> exactly when some element below the root has the tag \<open>p\<close>
  and a child with the tag \<open>c\<close>, and no edge occurs twice.
\<close>

theorem build_tag_graph_nodes_and_edges:
  "build_tag_graph root
     = Return \<lparr>nodes = iter_tag_list root,
               edges = concat (map (\<lambda>p. map (Pair p) (iter_unique_child_tags root p))
                                 (iter_tag_list root))\<rparr>
   \<and> distinct (iter_tag_list root)
   \<and> set (iter_tag_list root) = tag ` set (iterdescendants root)
   \<and> iter_tag_list root = unique_from {} (map tag (iterdescendants root))
   \<and> (\<forall>xs y. unique_from {} (xs @ [y])
         = unique_from {} xs @ (if y \<in> set xs then [] else [y :: string]))
   \<and> (\<forall>p. iter_unique_child_tags root p
         = unique_from {} (map tag (concat (map getchildren
             (filter (\<lambda>d. tag d = p) (iterdescendants root))))))
   \<and> (\<forall>p c. (p, c) \<in> set (concat (map (\<lambda>p. map (Pair p) (iter_unique_child_tags root p))
                                      (iter_tag_list root)))
         \<longleftrightarrow> (\<exists>d \<in> set (iterdescendants root). tag d = p \<and> c \<in> tag ` set (getchildren d)))
   \<and> distinct (concat (map (\<lambda>p. map (Pair p) (iter_unique_child_tags root p))
                           (iter_tag_list root)))"
proof -
  let ?tags = "iter_tag_list root"
  let ?es = "concat (map (\<lambda>p. map (Pair p) (iter_unique_child_tags root p)) ?tags)"
  let ?g = "\<lparr>nodes = ?tags, edges = ?es\<rparr>"
  have dt: "distinct ?tags" by (simp add: iter_tag_list_def distinct_unique_from)
  have st: "set ?tags = tag ` set (iterdescendants root)"
    by (simp add: iter_tag_list_def set_unique_from)
  have n: "add_nodes \<lparr>nodes = [], edges = []\<rparr> ?tags = Return \<lparr>nodes = ?tags, edges = []\<rparr>"
    using add_nodes_fresh [of ?tags "\<lparr>nodes = [], edges = []\<rparr>"] dt by simp
  have e: "add_parent_edges root \<lparr>nodes = ?tags, edges = []\<rparr> ?tags = Return ?g"
    using add_parent_edges_fresh [of ?tags "\<lparr>nodes = ?tags, edges = []\<rparr>" root] dt
      child_tags_are_tags
    by simp
  have b: "build_tag_graph root = Return ?g"
    by (simp add: build_tag_graph_def Let_def n e)
  have edge: "(p, c) \<in> set ?es
           \<longleftrightarrow> (\<exists>d \<in> set (iterdescendants root). tag d = p \<and> c \<in> tag ` set (getchildren d))"
    for p c
  proof
    assume "(p, c) \<in> set ?es"
    then have "c \<in> set (iter_unique_child_tags root p)" by auto
    then show "\<exists>d \<in> set (iterdescendants root). tag d = p \<and> c \<in> tag ` set (getchildren d)"
      by (auto simp: iter_unique_child_tags_def set_unique_from iterdescendants_tag_def)
  next
    assume "\<exists>d \<in> set (iterdescendants root). tag d = p \<and> c \<in> tag ` set (getchildren d)"
    then obtain d where d: "d \<in> set (iterdescendants root)" "tag d = p"
      "c \<in> tag ` set (getchildren d)"
      by blast
    then have "p \<in> set ?tags" by (auto simp: st)
    moreover from d have "c \<in> set (iter_unique_child_tags root p)"
      by (auto simp: iter_unique_child_tags_def set_unique_from iterdescendants_tag_def)
    ultimately show "(p, c) \<in> set ?es" by auto
  qed
  have de: "distinct ?es"
    by (rule distinct_edge_list [OF dt])
      (simp add: iter_unique_child_tags_def distinct_unique_from)
  have snoc: "unique_from {} (xs @ [y])
           = unique_from {} xs @ (if y \<in> set xs then [] else [y])" for xs and y :: string
    by (simp add: unique_from_snoc)
  have t: "iter_tag_list root = unique_from {} (map tag (iterdescendants root))"
    by (simp add: iter_tag_list_def)
  have c: "iter_unique_child_tags root p
         = unique_from {} (map tag (concat (map getchildren
             (filter (\<lambda>d. tag d = p) (iterdescendants root)))))" for p
    by (simp add: iter_unique_child_tags_def iterdescendants_tag_def)
  from b dt st t snoc c edge de show ?thesis by (intro conjI allI)
qed

theorem build_tag_graph_nodes_and_edges_witness:
  "build_tag_graph sample_tree
   = Return \<lparr>nodes = [''title'', ''chapter'', ''para''],
             edges = [(''chapter'', ''title''), (''chapter'', ''para'')]\<rparr>"
proof -
  from build_tag_graph_nodes_and_edges [of sample_tree]
  have g: "build_tag_graph sample_tree
     = Return \<lparr>nodes = iter_tag_list sample_tree,
               edges = concat (map (\<lambda>p. map (Pair p) (iter_unique_child_tags sample_tree p))
                                 (iter_tag_list sample_tree))\<rparr>"
    by (rule conjunct1)
  have n: "iter_tag_list sample_tree = [''title'', ''chapter'', ''para'']"
    by (simp add: iter_tag_list_def sample_tree_def)
  have e: "concat (map (\<lambda>p. map (Pair p) (iter_unique_child_tags sample_tree p))
                    [''title'', ''chapter'', ''para''])
           = [(''chapter'', ''title''), (''chapter'', ''para'')]"
    by (simp add: iter_unique_child_tags_def iterdescendants_tag_def sample_tree_def)
  from g show ?thesis unfolding n e .
qed

end
